theory Spec2Isabelle
  imports Main
begin

section \<open>JavaScript values\<close>

text \<open>
  The values the cached selector sees. A reference value carries its kind (which decides
  \<open>typeof\<close>) and an identity; two reference values are the same object exactly when they
  are equal. The contents of objects are not part of the model. Numbers are the
  integer-valued ones, rendered in decimal, as JavaScript renders the integers of
  magnitude below \<open>2^53\<close>; larger numbers, fractions and \<open>NaN\<close> are outside the
  model, and no property below depends on how a number is rendered.
\<close>

datatype refkind = PlainObject | Array | Function

datatype jsval =
    JUndefined
  | JNull
  | JBool bool
  | JNum int
  | JStr string
  | JSymbol nat
  | JRef refkind nat

fun typeof :: "jsval \<Rightarrow> string" where
  "typeof JUndefined = ''undefined''"
| "typeof JNull = ''object''"
| "typeof (JBool b) = ''boolean''"
| "typeof (JNum n) = ''number''"
| "typeof (JStr s) = ''string''"
| "typeof (JSymbol n) = ''symbol''"
| "typeof (JRef PlainObject n) = ''object''"
| "typeof (JRef Array n) = ''object''"
| "typeof (JRef Function n) = ''function''"

text \<open>Truthiness, as used by \<open>&&\<close>, \<open>||\<close> and \<open>if\<close>.\<close>

fun truthy :: "jsval \<Rightarrow> bool" where
  "truthy JUndefined = False"
| "truthy JNull = False"
| "truthy (JBool b) = b"
| "truthy (JNum n) = (n \<noteq> 0)"
| "truthy (JStr s) = (s \<noteq> [])"
| "truthy (JSymbol n) = True"
| "truthy (JRef k n) = True"

text \<open>\<open>Object( key ) === key\<close>: the value is a reference value, not a primitive.\<close>

fun is_reference :: "jsval \<Rightarrow> bool" where
  "is_reference (JRef k n) = True"
| "is_reference v = False"

text \<open>\<open>key != null\<close> (loose inequality): neither \<open>null\<close> nor \<open>undefined\<close>.\<close>

fun not_nullish :: "jsval \<Rightarrow> bool" where
  "not_nullish JUndefined = False"
| "not_nullish JNull = False"
| "not_nullish v = True"

text \<open>
  The errors of the subsystem. \<open>InvalidArgument\<close> is the \<open>TypeError\<close> of \<open>treeSelect\<close>,
  \<open>CacheKeyError\<close> the \<open>Error\<close> of the development check on the extra arguments,
  \<open>InvalidDependentKey\<close> the \<open>TypeError\<close> of \<open>insertDependentKey\<close>. The other three are
  raised by the JavaScript runtime: calling a value that is not a function, using a
  primitive as a \<open>WeakMap\<close> key in \<open>set\<close>, and converting a symbol to a string.
\<close>

datatype error =
    InvalidArgument
  | CacheKeyError
  | InvalidDependentKey
  | NotCallable
  | InvalidWeakMapKey
  | SymbolToString

section \<open>The helpers of the module\<close>

text \<open>
  An argument that is expected to be a function: either a function, given by its
  behaviour (\<open>Fn\<close>), or a value that is not one (\<open>NonFn\<close>); calling the latter throws.
\<close>

datatype 'f jsarg = Fn 'f | NonFn jsval

text \<open>\<open>isFunction\<close>: \<open>fn && typeof fn === 'function'\<close>.\<close>

fun isFunction :: "'f jsarg \<Rightarrow> bool" where
  "isFunction (Fn f) = True"
| "isFunction (NonFn v) = (truthy v \<and> typeof v = ''function'')"

text \<open>\<open>isObject\<close>: \<open>o && typeof o === 'object'\<close>.\<close>

definition isObject :: "jsval \<Rightarrow> bool" where
  "isObject o' = (truthy o' \<and> typeof o' = ''object'')"

subsection \<open>The default key derivation: \<open>args.join()\<close>\<close>

definition digit :: "nat \<Rightarrow> char" where
  "digit n = ''0123456789'' ! (n mod 10)"

function string_of_nat :: "nat \<Rightarrow> string" where
  "string_of_nat n = (if n < 10 then [digit n] else string_of_nat (n div 10) @ [digit n])"
  by pat_completeness auto
termination
  by (relation "measure id") auto

definition string_of_int :: "int \<Rightarrow> string" where
  "string_of_int i = (if i < 0 then CHR ''-'' # string_of_nat (nat (- i)) else string_of_nat (nat i))"

text \<open>
  The host: the build mode read from \<open>process.env.NODE_ENV\<close>, and the string that the
  conversion to string yields for each reference value (the result of its \<open>toString\<close>).
\<close>

record runtime =
  NODE_ENV :: string
  refToString :: "refkind \<Rightarrow> nat \<Rightarrow> string"

text \<open>
  One element of \<open>Array.prototype.join\<close>: \<open>undefined\<close> and \<open>null\<close> give the empty string,
  a symbol cannot be converted, everything else is converted to a string.
\<close>

fun join_element :: "runtime \<Rightarrow> jsval \<Rightarrow> error + string" where
  "join_element rt JUndefined = Inr []"
| "join_element rt JNull = Inr []"
| "join_element rt (JBool b) = Inr (if b then ''true'' else ''false'')"
| "join_element rt (JNum n) = Inr (string_of_int n)"
| "join_element rt (JStr s) = Inr s"
| "join_element rt (JSymbol n) = Inl SymbolToString"
| "join_element rt (JRef k n) = Inr (refToString rt k n)"

fun join :: "runtime \<Rightarrow> jsval list \<Rightarrow> error + string" where
  "join rt [] = Inr []"
| "join rt [x] = join_element rt x"
| "join rt (x # y # ys) =
     (case join_element rt x of
        Inl e \<Rightarrow> Inl e
      | Inr sx \<Rightarrow> (case join rt (y # ys) of
                    Inl e \<Rightarrow> Inl e
                  | Inr rest \<Rightarrow> Inr (sx @ '','' @ rest)))"

definition defaultGetCacheKey :: "runtime \<Rightarrow> jsval list \<Rightarrow> error + string" where
  "defaultGetCacheKey rt args = join rt args"

section \<open>The cache: a heap of maps\<close>

text \<open>
  The key of a level of the tree: a dependent, or the module's private object
  \<open>NULLISH_KEY\<close>, which no caller can obtain.
\<close>

datatype mapkey = NULLISH_KEY | Key jsval

type_synonym addr = nat

text \<open>
  A map object. The declared type of \<open>getCacheKey\<close> makes every leaf key a string, and
  every key written by \<open>insertDependentKey\<close> is an object, so a map holds two kinds of
  entries that never meet: object keys, whose values are maps (given by their addresses),
  and string keys, whose values are Results. A \<open>WeakMap\<close> admits object keys only.
\<close>

datatype 'r mapobj =
    WeakMap "mapkey \<rightharpoonup> addr"
  | Map "mapkey \<rightharpoonup> addr" "string \<rightharpoonup> 'r"

fun children :: "'r mapobj \<Rightarrow> (mapkey \<rightharpoonup> addr)" where
  "children (WeakMap m) = m"
| "children (Map m r) = m"

fun results :: "'r mapobj \<Rightarrow> (string \<rightharpoonup> 'r)" where
  "results (WeakMap m) = Map.empty"
| "results (Map m r) = r"

fun is_Map :: "'r mapobj \<Rightarrow> bool" where
  "is_Map (WeakMap m) = False"
| "is_Map (Map m r) = True"

text \<open>\<open>map.set( weakMapKey, newMap )\<close> with an object key: both kinds of map accept it.\<close>

fun set_child :: "'r mapobj \<Rightarrow> mapkey \<Rightarrow> addr \<Rightarrow> 'r mapobj" where
  "set_child (WeakMap m) k a = WeakMap (m(k \<mapsto> a))"
| "set_child (Map m r) k a = Map (m(k \<mapsto> a)) r"

text \<open>
  \<open>leafCache.set( key, value )\<close> with a string key: a \<open>WeakMap\<close> throws a \<open>TypeError\<close>.
\<close>

fun set_result :: "'r mapobj \<Rightarrow> string \<Rightarrow> 'r \<Rightarrow> error + 'r mapobj" where
  "set_result (WeakMap m) k v = Inl InvalidWeakMapKey"
| "set_result (Map m r) k v = Inr (Map m (r(k \<mapsto> v)))"

text \<open>
  The state of one cached selector: the maps it has allocated, by address; the closure
  variable \<open>cache\<close>, which holds the address of the root; the next free address, where
  \<open>new Map()\<close> and \<open>new WeakMap()\<close> allocate; and (as an observation, not read by the
  code) the number of times the computation function has been called. The maps belong to
  the selector alone: no caller holds a reference to one of them.
\<close>

record 'r cache_state =
  heap :: "addr \<Rightarrow> 'r mapobj"
  cache :: addr
  next_addr :: addr
  selector_calls :: nat

text \<open>\<open>key || NULLISH_KEY\<close>.\<close>

definition weakMapKey :: "jsval \<Rightarrow> mapkey" where
  "weakMapKey key = (if truthy key then Key key else NULLISH_KEY)"

text \<open>
  \<open>insertDependentKey( map, key, currentIndex, arr )\<close>; \<open>map\<close> is the address of a map.
\<close>

definition insertDependentKey ::
  "addr \<Rightarrow> jsval \<Rightarrow> nat \<Rightarrow> jsval list \<Rightarrow> 'r cache_state \<Rightarrow> (error + addr) \<times> 'r cache_state" where
  "insertDependentKey map' key currentIndex arr s =
     (if not_nullish key \<and> \<not> is_reference key then (Inl InvalidDependentKey, s)
      else
        (case children (heap s map') (weakMapKey key) of
           Some existingMap \<Rightarrow> (Inr existingMap, s)
         | None \<Rightarrow>
             let newMap = next_addr s;
                 obj = (if currentIndex = length arr - 1 then Map Map.empty Map.empty
                        else WeakMap Map.empty)
             in (Inr newMap,
                 s\<lparr>heap := (heap s)(newMap := obj,
                                     map' := set_child (heap s map') (weakMapKey key) newMap),
                   next_addr := Suc newMap\<rparr>)))"

text \<open>
  \<open>dependents.reduce( insertDependentKey, cache )\<close>: the callback runs on the elements in
  order, with their index and the whole array; a throw ends the loop and keeps the maps
  written so far.
\<close>

fun reduce_from ::
  "nat \<Rightarrow> jsval list \<Rightarrow> addr \<Rightarrow> jsval list \<Rightarrow> 'r cache_state \<Rightarrow> (error + addr) \<times> 'r cache_state" where
  "reduce_from i arr acc [] s = (Inr acc, s)"
| "reduce_from i arr acc (x # xs) s =
     (case insertDependentKey acc x i arr s of
        (Inl e, s') \<Rightarrow> (Inl e, s')
      | (Inr acc', s') \<Rightarrow> reduce_from (Suc i) arr acc' xs s')"

definition reduce :: "jsval list \<Rightarrow> addr \<Rightarrow> 'r cache_state \<Rightarrow> (error + addr) \<times> 'r cache_state" where
  "reduce arr init s = reduce_from 0 arr init arr s"

section \<open>The cached selector\<close>

text \<open>
  What \<open>treeSelect\<close> closes over: the two functions and the key derivation of the options
  (\<open>None\<close>: the option is absent, and \<open>defaultGetCacheKey\<close> is used).
\<close>

record ('s, 'r) closure =
  getDependents :: "('s \<Rightarrow> jsval list \<Rightarrow> jsval list) jsarg"
  selector :: "(jsval list \<Rightarrow> jsval list \<Rightarrow> 'r) jsarg"
  getCacheKey :: "(jsval list \<Rightarrow> string) option"

text \<open>\<open>let cache = new WeakMap()\<close>: the state of a new cached selector.\<close>

definition initial_state :: "'r cache_state" where
  "initial_state =
     \<lparr>heap = (\<lambda>a. WeakMap Map.empty), cache = 0, next_addr = 1, selector_calls = 0\<rparr>"

definition treeSelect ::
  "runtime \<Rightarrow> ('s \<Rightarrow> jsval list \<Rightarrow> jsval list) jsarg \<Rightarrow> (jsval list \<Rightarrow> jsval list \<Rightarrow> 'r) jsarg
     \<Rightarrow> (jsval list \<Rightarrow> string) option \<Rightarrow> error + (('s, 'r) closure \<times> 'r cache_state)" where
  "treeSelect rt getDependents' selector' options =
     (if NODE_ENV rt \<noteq> ''production'' \<and> (\<not> isFunction getDependents' \<or> \<not> isFunction selector')
      then Inl InvalidArgument
      else Inr (\<lparr>getDependents = getDependents', selector = selector', getCacheKey = options\<rparr>,
                initial_state))"

text \<open>\<open>getCacheKey( ...args )\<close> with the key derivation in force.\<close>

definition cache_key :: "runtime \<Rightarrow> ('s, 'r) closure \<Rightarrow> jsval list \<Rightarrow> error + string" where
  "cache_key rt c args =
     (case getCacheKey c of None \<Rightarrow> defaultGetCacheKey rt args | Some f \<Rightarrow> Inr (f args))"

text \<open>Lines 90 to 97: the lookup in the leaf map, and the computation on a miss.\<close>

definition lookup_or_compute ::
  "runtime \<Rightarrow> ('s, 'r) closure \<Rightarrow> jsval list \<Rightarrow> jsval list \<Rightarrow> addr \<Rightarrow> 'r cache_state
     \<Rightarrow> (error + 'r) \<times> 'r cache_state" where
  "lookup_or_compute rt c dependents args leafCache s =
     (case cache_key rt c args of
        Inl e \<Rightarrow> (Inl e, s)
      | Inr key \<Rightarrow>
          (case results (heap s leafCache) key of
             Some stored \<Rightarrow> (Inr stored, s)
           | None \<Rightarrow>
               (case selector c of
                  NonFn v \<Rightarrow> (Inl NotCallable, s)
                | Fn sel \<Rightarrow>
                    let value = sel dependents args;
                        s' = s\<lparr>selector_calls := Suc (selector_calls s)\<rparr>
                    in (case set_result (heap s' leafCache) key value of
                          Inl e \<Rightarrow> (Inl e, s')
                        | Inr m \<Rightarrow> (Inr value, s'\<lparr>heap := (heap s')(leafCache := m)\<rparr>)))))"

text \<open>
  Lines 79 to 83: the check on the extra arguments; it throws the \<open>Error\<close> that the
  specification calls \<open>CacheKeyError\<close>.
\<close>

definition args_rejected :: "runtime \<Rightarrow> ('s, 'r) closure \<Rightarrow> jsval list \<Rightarrow> bool" where
  "args_rejected rt c args =
     (NODE_ENV rt \<noteq> ''production'' \<and> getCacheKey c = None \<and> list_ex isObject args)"

text \<open>
  Lines 76 to 98: the cached selector, called with the state and the extra arguments.
  The maps written before a throw stay written.
\<close>

definition cachedSelector ::
  "runtime \<Rightarrow> ('s, 'r) closure \<Rightarrow> 's \<Rightarrow> jsval list \<Rightarrow> 'r cache_state
     \<Rightarrow> (error + 'r) \<times> 'r cache_state" where
  "cachedSelector rt c state args s =
     (case getDependents c of
        NonFn v \<Rightarrow> (Inl NotCallable, s)
      | Fn gd \<Rightarrow>
          let dependents = gd state args in
          if args_rejected rt c args then (Inl CacheKeyError, s)
          else
            (case reduce dependents (cache s) s of
               (Inl e, s') \<Rightarrow> (Inl e, s')
             | (Inr leafCache, s') \<Rightarrow> lookup_or_compute rt c dependents args leafCache s'))"

text \<open>\<open>cachedSelector.clearCache\<close>: \<open>cache = new WeakMap()\<close>.\<close>

definition clearCache :: "'r cache_state \<Rightarrow> 'r cache_state" where
  "clearCache s =
     s\<lparr>heap := (heap s)(next_addr s := WeakMap Map.empty),
       cache := next_addr s,
       next_addr := Suc (next_addr s)\<rparr>"

section \<open>Observations on the cache tree\<close>

text \<open>The map reached from a map by following a sequence of keys, if every step exists.\<close>

fun lookup_path :: "(addr \<Rightarrow> 'r mapobj) \<Rightarrow> addr \<Rightarrow> mapkey list \<Rightarrow> addr option" where
  "lookup_path h a [] = Some a"
| "lookup_path h a (k # ks) =
     (case children (h a) k of None \<Rightarrow> None | Some b \<Rightarrow> lookup_path h b ks)"

text \<open>
  What the tree below the root holds at a path of keys: whether the level is a \<open>Map\<close>,
  and its Results.
\<close>

definition tree_view :: "'r cache_state \<Rightarrow> mapkey list \<Rightarrow> (bool \<times> (string \<rightharpoonup> 'r)) option" where
  "tree_view s p =
     (case lookup_path (heap s) (cache s) p of
        None \<Rightarrow> None
      | Some a \<Rightarrow> Some (is_Map (heap s a), results (heap s a)))"

text \<open>The Result stored for a path of keys and a leaf key, if any.\<close>

definition cached_result :: "'r cache_state \<Rightarrow> mapkey list \<Rightarrow> string \<Rightarrow> 'r option" where
  "cached_result s p k =
     (case lookup_path (heap s) (cache s) p of None \<Rightarrow> None | Some a \<Rightarrow> results (heap s a) k)"

text \<open>A dependent that \<open>insertDependentKey\<close> accepts: nullish, or a reference value.\<close>

definition valid_dependent :: "jsval \<Rightarrow> bool" where
  "valid_dependent key = (\<not> (not_nullish key \<and> \<not> is_reference key))"

text \<open>
  Two dependents that are the same for the cache: the same value, or both nullish.
\<close>

definition same_dependent :: "jsval \<Rightarrow> jsval \<Rightarrow> bool" where
  "same_dependent x y = (x = y \<or> (\<not> not_nullish x \<and> \<not> not_nullish y))"

text \<open>
  The states of a cached selector: the one \<open>treeSelect\<close> returns, and those that calls
  of the selector and of \<open>clearCache\<close> lead to, in any build mode.
\<close>

inductive reachable :: "('s, 'r) closure \<Rightarrow> 'r cache_state \<Rightarrow> bool" for c where
  init: "treeSelect rt gd sel opts = Inr (c, s) \<Longrightarrow> reachable c s"
| call: "reachable c s \<Longrightarrow> reachable c (snd (cachedSelector rt c state args s))"
| clear: "reachable c s \<Longrightarrow> reachable c (clearCache s)"

text \<open>
  The shape of the heap that every operation keeps: the root is allocated and is a
  \<open>WeakMap\<close>; every entry points to an allocated map; no map is stored under two
  entries, and the root under none; the cells not yet allocated are empty; and a Result
  is stored only if the computation function is a function.
\<close>

definition inv :: "('s, 'r) closure \<Rightarrow> 'r cache_state \<Rightarrow> bool" where
  "inv c s =
     (cache s < next_addr s
      \<and> (\<forall>a k b. children (heap s a) k = Some b \<longrightarrow> b < next_addr s)
      \<and> (\<forall>a b k k' x. children (heap s a) k = Some x \<longrightarrow> children (heap s b) k' = Some x
             \<longrightarrow> a = b \<and> k = k')
      \<and> (\<forall>a k. children (heap s a) k \<noteq> Some (cache s))
      \<and> \<not> is_Map (heap s (cache s))
      \<and> (\<forall>a. next_addr s \<le> a \<longrightarrow> heap s a = WeakMap Map.empty)
      \<and> (\<forall>a k v. results (heap s a) k = Some v \<longrightarrow> (\<exists>f. selector c = Fn f)))"

text \<open>
  The tree has \<open>n\<close> levels below the root: every path from the root has at most \<open>n\<close>
  keys, and the map at its end is a \<open>Map\<close> exactly when it has \<open>n\<close> keys.
\<close>

definition has_depth :: "nat \<Rightarrow> 'r cache_state \<Rightarrow> bool" where
  "has_depth n s =
     (\<forall>p a. lookup_path (heap s) (cache s) p = Some a
        \<longrightarrow> length p \<le> n \<and> (is_Map (heap s a) \<longleftrightarrow> length p = n))"

text \<open>
  What a walk of the tree may change: it allocates maps and adds entries that lead to
  the maps it allocates; it keeps the root, the entries and the kinds of the maps already
  there, every Result, and the count of computations.
\<close>

definition grows :: "'r cache_state \<Rightarrow> 'r cache_state \<Rightarrow> bool" where
  "grows s s' =
     (cache s' = cache s \<and> selector_calls s' = selector_calls s
      \<and> next_addr s \<le> next_addr s'
      \<and> (\<forall>b. results (heap s' b) = results (heap s b))
      \<and> (\<forall>b k y. children (heap s b) k = Some y \<longrightarrow> children (heap s' b) k = Some y)
      \<and> (\<forall>b k y. children (heap s' b) k = Some y
             \<longrightarrow> children (heap s b) k = Some y \<or> next_addr s \<le> y)
      \<and> (\<forall>b. b < next_addr s \<longrightarrow> is_Map (heap s' b) = is_Map (heap s b)))"

section \<open>Example selectors\<close>

text \<open>
  A development and a production host, and three cached selectors: one whose only
  dependent is the state, one whose state is the sequence of its dependents, and the
  latter with a key derivation of its own. Their Result is the sequence of the dependents
  followed by the extra arguments, and \<open>start\<close> is their state when \<open>treeSelect\<close> returns.
\<close>

abbreviation start :: "jsval list cache_state" where
  "start \<equiv> initial_state"

definition example_toString :: "refkind \<Rightarrow> nat \<Rightarrow> string" where
  "example_toString k n =
     (case k of PlainObject \<Rightarrow> ''[object Object]'' | Array \<Rightarrow> [] | Function \<Rightarrow> ''function () {}'')"

definition dev_runtime :: runtime where
  "dev_runtime = \<lparr>NODE_ENV = ''development'', refToString = example_toString\<rparr>"

definition prod_runtime :: runtime where
  "prod_runtime = \<lparr>NODE_ENV = ''production'', refToString = example_toString\<rparr>"

definition by_state :: "(jsval, jsval list) closure" where
  "by_state = \<lparr>getDependents = Fn (\<lambda>state args. [state]),
               selector = Fn (\<lambda>dependents args. dependents @ args),
               getCacheKey = None\<rparr>"

definition by_list :: "(jsval list, jsval list) closure" where
  "by_list = \<lparr>getDependents = Fn (\<lambda>state args. state),
              selector = Fn (\<lambda>dependents args. dependents @ args),
              getCacheKey = None\<rparr>"

definition by_list_keyed :: "(jsval list, jsval list) closure" where
  "by_list_keyed = \<lparr>getDependents = Fn (\<lambda>state args. state),
                    selector = Fn (\<lambda>dependents args. dependents @ args),
                    getCacheKey = Some (\<lambda>args. ''key'')\<rparr>"

section \<open>Properties of the heap and of the walk\<close>

subsection \<open>Maps and paths\<close>

lemma children_set_child [simp]: "children (set_child m k a) = (children m)(k \<mapsto> a)"
  by (cases m) simp_all

lemma results_set_child [simp]: "results (set_child m k a) = results m"
  by (cases m) simp_all

lemma is_Map_set_child [simp]: "is_Map (set_child m k a) = is_Map m"
  by (cases m) simp_all

lemma set_result_Inr:
  "set_result m k v = Inr m' \<Longrightarrow>
     children m' = children m \<and> results m' = (results m)(k \<mapsto> v) \<and> is_Map m' \<and> is_Map m"
  by (cases m) auto

lemma set_result_Inl: "set_result m k v = Inl e \<Longrightarrow> e = InvalidWeakMapKey \<and> \<not> is_Map m"
  by (cases m) auto

lemma lookup_path_cong:
  "(\<And>a. children (h' a) = children (h a)) \<Longrightarrow> lookup_path h' a p = lookup_path h a p"
  by (induction p arbitrary: a) (simp_all split: option.splits)

lemma lookup_path_append:
  "lookup_path h a (p @ q) =
     (case lookup_path h a p of None \<Rightarrow> None | Some b \<Rightarrow> lookup_path h b q)"
  by (induction p arbitrary: a) (simp_all split: option.splits)

lemma lookup_path_snoc:
  "lookup_path h a (p @ [k]) =
     (case lookup_path h a p of None \<Rightarrow> None | Some b \<Rightarrow> children (h b) k)"
  by (simp add: lookup_path_append split: option.splits)

text \<open>
  In a heap of the right shape, two paths from the root that end at the same map are the
  same path, and every path from an allocated map ends at an allocated map.
\<close>

lemma inv_path_inj:
  assumes "inv c s"
  shows "lookup_path (heap s) (cache s) p = Some x \<Longrightarrow>
         lookup_path (heap s) (cache s) q = Some x \<Longrightarrow> p = q"
proof (induction p arbitrary: q x rule: rev_induct)
  case Nil
  then have x: "x = cache s" by simp
  show ?case
  proof (cases q rule: rev_cases)
    case Nil
    then show ?thesis by simp
  next
    case (snoc q' k)
    with Nil.prems(2) x obtain b where "children (heap s b) k = Some (cache s)"
      by (auto simp: lookup_path_snoc split: option.splits)
    with assms show ?thesis by (simp add: inv_def)
  qed
next
  case (snoc k p)
  from snoc.prems(1) obtain a where a: "lookup_path (heap s) (cache s) p = Some a"
    and ak: "children (heap s a) k = Some x"
    by (auto simp: lookup_path_snoc split: option.splits)
  show ?case
  proof (cases q rule: rev_cases)
    case Nil
    with snoc.prems(2) have "x = cache s" by simp
    with ak assms show ?thesis by (simp add: inv_def)
  next
    case (snoc q' k')
    with snoc.prems(2) obtain b where b: "lookup_path (heap s) (cache s) q' = Some b"
      and bk: "children (heap s b) k' = Some x"
      by (auto simp: lookup_path_snoc split: option.splits)
    from assms ak bk have "a = b \<and> k = k'"
      unfolding inv_def by blast
    with a b snoc.IH[of a q'] snoc show ?thesis by simp
  qed
qed

lemma inv_lookup_lt:
  assumes "inv c s" "a < next_addr s" "lookup_path (heap s) a p = Some b"
  shows "b < next_addr s"
  using assms(2,3)
proof (induction p arbitrary: a)
  case Nil
  then show ?case by simp
next
  case (Cons k ks)
  then obtain x where x: "children (heap s a) k = Some x" and r: "lookup_path (heap s) x ks = Some b"
    by (auto split: option.splits)
  from assms(1) x have "x < next_addr s" unfolding inv_def by blast
  with Cons.IH r show ?case by simp
qed


subsection \<open>One step of the walk\<close>

text \<open>
  The three ways a step can go: the dependent is rejected, its level is there already,
  or a level is allocated for it.
\<close>

lemma insert_invalid:
  "\<not> valid_dependent x \<Longrightarrow> insertDependentKey a x i arr s = (Inl InvalidDependentKey, s)"
  by (simp add: insertDependentKey_def valid_dependent_def)

lemma insert_existing:
  "valid_dependent x \<Longrightarrow> children (heap s a) (weakMapKey x) = Some b \<Longrightarrow>
     insertDependentKey a x i arr s = (Inr b, s)"
  by (simp add: insertDependentKey_def valid_dependent_def)

lemma insert_new:
  "valid_dependent x \<Longrightarrow> children (heap s a) (weakMapKey x) = None \<Longrightarrow>
     insertDependentKey a x i arr s =
       (Inr (next_addr s),
        s\<lparr>heap := (heap s)(next_addr s := (if i = length arr - 1 then Map Map.empty Map.empty
                                            else WeakMap Map.empty),
                            a := set_child (heap s a) (weakMapKey x) (next_addr s)),
          next_addr := Suc (next_addr s)\<rparr>)"
  by (simp add: insertDependentKey_def valid_dependent_def Let_def)

text \<open>
  Allocating a map \<open>n\<close> under a key \<open>k\<close> of a map \<open>acc\<close> adds exactly the paths that
  led to \<open>acc\<close>, extended by \<open>k\<close>.
\<close>

lemma lookup_path_alloc:
  assumes "children (h acc) k = None" "children (h n) = Map.empty" "acc \<noteq> n"
    "children obj = Map.empty"
  shows "lookup_path (h(n := obj, acc := set_child (h acc) k n)) r p =
           (if p \<noteq> [] \<and> last p = k \<and> lookup_path h r (butlast p) = Some acc then Some n
            else lookup_path h r p)"
proof -
  define h' where "h' = h(n := obj, acc := set_child (h acc) k n)"
  have ch: "\<And>r k0. children (h' r) k0 =
      (if r = acc then (if k0 = k then Some n else children (h acc) k0)
       else children (h r) k0)"
    using assms by (auto simp: h'_def)
  have nn: "\<And>q. lookup_path h' n q = (if q = [] then Some n else None)"
    using assms(2,3) by (case_tac q) (auto simp: ch)
  have "lookup_path h' r p =
           (if p \<noteq> [] \<and> last p = k \<and> lookup_path h r (butlast p) = Some acc then Some n
            else lookup_path h r p)"
  proof (induction p arbitrary: r)
    case Nil
    then show ?case by simp
  next
    case (Cons k0 ps)
    show ?case
    proof (cases "r = acc \<and> k0 = k")
      case True
      then show ?thesis using assms(1,3) by (auto simp: ch nn)
    next
      case False
      show ?thesis
      proof (cases "children (h r) k0")
        case None
        with False show ?thesis using assms(1) by (auto simp: ch)
      next
        case (Some b)
        with False have "children (h' r) k0 = Some b" by (auto simp: ch)
        with Some Cons.IH[of b] False show ?thesis
          using assms(1) by (cases ps) (auto split: if_splits)
      qed
    qed
  qed
  then show ?thesis by (simp add: h'_def)
qed

lemma inv_insert_new:
  assumes "inv c s" "a < next_addr s" "children (heap s a) k = None" "results obj = Map.empty"
    "children obj = Map.empty"
  shows "inv c (s\<lparr>heap := (heap s)(next_addr s := obj, a := set_child (heap s a) k (next_addr s)),
                  next_addr := Suc (next_addr s)\<rparr>)"
proof -
  define n where "n = next_addr s"
  define h' where "h' = (heap s)(n := obj, a := set_child (heap s a) k n)"
  have an: "a \<noteq> n" "a < n" using assms(2) by (auto simp: n_def)
  have ch: "\<And>x k'. children (h' x) k' =
      (if x = a then (if k' = k then Some n else children (heap s a) k')
       else if x = n then None else children (heap s x) k')"
    using assms(5) an by (auto simp: h'_def)
  have rs: "\<And>x. results (h' x) = (if x = n then Map.empty else results (heap s x))"
    using assms(4) an by (auto simp: h'_def)
  have km: "\<And>x. x \<noteq> n \<Longrightarrow> is_Map (h' x) = is_Map (heap s x)"
    by (auto simp: h'_def)
  have old: "\<And>x k' b. children (heap s x) k' = Some b \<Longrightarrow> b < n"
    using assms(1) unfolding inv_def n_def by blast
  have uniq: "\<And>x y k1 k2 z. children (heap s x) k1 = Some z \<Longrightarrow> children (heap s y) k2 = Some z
      \<Longrightarrow> x = y \<and> k1 = k2"
    using assms(1) unfolding inv_def by blast
  have root: "\<And>x k'. children (heap s x) k' \<noteq> Some (cache s)"
    using assms(1) unfolding inv_def by blast
  have c_lt: "cache s < n" and rk: "\<not> is_Map (heap s (cache s))"
    and empty: "\<And>x. n \<le> x \<Longrightarrow> heap s x = WeakMap Map.empty"
    and resf: "\<And>x k' v. results (heap s x) k' = Some v \<Longrightarrow> \<exists>f. selector c = Fn f"
    using assms(1) unfolding inv_def n_def by blast+
  have 1: "\<forall>x k' b. children (h' x) k' = Some b \<longrightarrow> b < Suc n"
    using old by (auto simp: ch less_Suc_eq split: if_splits)
  have 2: "\<forall>x y k1 k2 z. children (h' x) k1 = Some z \<longrightarrow> children (h' y) k2 = Some z
      \<longrightarrow> x = y \<and> k1 = k2"
  proof (intro allI impI)
    fix x y k1 k2 z
    assume A: "children (h' x) k1 = Some z" and B: "children (h' y) k2 = Some z"
    show "x = y \<and> k1 = k2"
    proof (cases "z = n")
      case True
      from A True old have "x = a \<and> k1 = k" by (auto simp: ch split: if_splits)
      moreover from B True old have "y = a \<and> k2 = k" by (auto simp: ch split: if_splits)
      ultimately show ?thesis by simp
    next
      case False
      from A False have "children (heap s x) k1 = Some z" by (auto simp: ch split: if_splits)
      moreover from B False have "children (heap s y) k2 = Some z" by (auto simp: ch split: if_splits)
      ultimately show ?thesis using uniq by blast
    qed
  qed
  have 3: "\<forall>x k'. children (h' x) k' \<noteq> Some (cache s)"
    using root c_lt by (auto simp: ch)
  have 4: "\<not> is_Map (h' (cache s))"
    using rk c_lt km[of "cache s"] by auto
  have 5: "\<forall>x. Suc n \<le> x \<longrightarrow> h' x = WeakMap Map.empty"
    using empty an by (auto simp: h'_def)
  have 6: "\<forall>x k' v. results (h' x) k' = Some v \<longrightarrow> (\<exists>f. selector c = Fn f)"
    using resf by (auto simp: rs split: if_splits)
  have "inv c (s\<lparr>heap := h', next_addr := Suc n\<rparr>)"
    unfolding inv_def using c_lt 1 2 3 4 5 6 by simp
  then show ?thesis by (simp add: h'_def n_def)
qed

subsection \<open>The walk\<close>

lemma grows_refl: "grows s s"
  by (simp add: grows_def)

lemma grows_trans:
  assumes "grows s s1" "grows s1 s2"
  shows "grows s s2"
proof -
  have a: "cache s1 = cache s" "selector_calls s1 = selector_calls s" "next_addr s \<le> next_addr s1"
    "\<And>b. results (heap s1 b) = results (heap s b)"
    "\<And>b k y. children (heap s b) k = Some y \<Longrightarrow> children (heap s1 b) k = Some y"
    "\<And>b k y. children (heap s1 b) k = Some y \<Longrightarrow> children (heap s b) k = Some y \<or> next_addr s \<le> y"
    "\<And>b. b < next_addr s \<Longrightarrow> is_Map (heap s1 b) = is_Map (heap s b)"
    using assms(1) unfolding grows_def by blast+
  have b: "cache s2 = cache s1" "selector_calls s2 = selector_calls s1" "next_addr s1 \<le> next_addr s2"
    "\<And>b. results (heap s2 b) = results (heap s1 b)"
    "\<And>b k y. children (heap s1 b) k = Some y \<Longrightarrow> children (heap s2 b) k = Some y"
    "\<And>b k y. children (heap s2 b) k = Some y \<Longrightarrow> children (heap s1 b) k = Some y \<or> next_addr s1 \<le> y"
    "\<And>b. b < next_addr s1 \<Longrightarrow> is_Map (heap s2 b) = is_Map (heap s1 b)"
    using assms(2) unfolding grows_def by blast+
  have 1: "\<forall>b k y. children (heap s2 b) k = Some y
             \<longrightarrow> children (heap s b) k = Some y \<or> next_addr s \<le> y"
    using a(3,6) b(6) by (meson le_trans)
  have 2: "\<forall>b. b < next_addr s \<longrightarrow> is_Map (heap s2 b) = is_Map (heap s b)"
    using a(3,7) b(7) by (metis less_le_trans)
  show ?thesis
    unfolding grows_def using a(1-5) b(1-5) 1 2 by auto
qed

lemma grows_lookup:
  "grows s s' \<Longrightarrow> lookup_path (heap s) a p = Some b \<Longrightarrow> lookup_path (heap s') a p = Some b"
proof (induction p arbitrary: a)
  case Nil
  then show ?case by simp
next
  case (Cons k ks)
  then obtain x where x: "children (heap s a) k = Some x" and r: "lookup_path (heap s) x ks = Some b"
    by (auto split: option.splits)
  from Cons.prems(1) x have "children (heap s' a) k = Some x"
    unfolding grows_def by blast
  with Cons.IH[OF Cons.prems(1) r] show ?case by simp
qed

lemma insert_step:
  assumes "inv c s" "a < next_addr s" "insertDependentKey a x i arr s = (r, s')"
  shows "inv c s' \<and> grows s s'
     \<and> (\<forall>a'. r = Inr a' \<longrightarrow> valid_dependent x \<and> a' < next_addr s'
            \<and> children (heap s' a) (weakMapKey x) = Some a')
     \<and> (\<forall>e. r = Inl e \<longrightarrow> e = InvalidDependentKey \<and> s' = s \<and> \<not> valid_dependent x)"
proof (cases "valid_dependent x")
  case False
  with assms insert_invalid[OF False, of a i arr s] show ?thesis
    by (auto simp: grows_refl)
next
  case True
  show ?thesis
  proof (cases "children (heap s a) (weakMapKey x)")
    case (Some b)
    from assms(1) Some have "b < next_addr s" unfolding inv_def by blast
    with assms True Some insert_existing[OF True Some, of i arr] show ?thesis
      by (auto simp: grows_refl)
  next
    case None
    define obj :: "'b mapobj" where
      "obj = (if i = length arr - 1 then Map Map.empty Map.empty else WeakMap Map.empty)"
    define n where "n = next_addr s"
    define h' where "h' = (heap s)(n := obj, a := set_child (heap s a) (weakMapKey x) n)"
    have ob: "results obj = Map.empty" "children obj = Map.empty"
      by (auto simp: obj_def)
    have eq: "r = Inr n" "s' = s\<lparr>heap := h', next_addr := Suc n\<rparr>"
      using assms(3) insert_new[OF True None, of i arr]
      by (auto simp: obj_def n_def h'_def)
    have an: "a \<noteq> n" using assms(2) by (simp add: n_def)
    have hn: "heap s n = WeakMap Map.empty"
      using assms(1) unfolding inv_def n_def by simp
    have i: "inv c s'"
      using inv_insert_new[OF assms(1,2) None ob] by (simp add: eq h'_def n_def)
    have g: "grows s s'"
      unfolding grows_def using an hn None ob
      by (auto simp: eq h'_def n_def[symmetric])
    have "children (heap s' a) (weakMapKey x) = Some n"
      using an by (simp add: eq h'_def)
    with i g True show ?thesis by (simp add: eq)
  qed
qed

text \<open>
  The walk keeps the shape of the heap and only grows the tree; when it returns a map,
  every dependent was accepted and the map is at the end of the path of their keys;
  when it throws, it is the \<open>TypeError\<close> of a rejected dependent.
\<close>

lemma reduce_from_walk:
  assumes "inv c s" "a < next_addr s" "reduce_from i arr a xs s = (r, s')"
  shows "inv c s' \<and> grows s s'
     \<and> (\<forall>leaf. r = Inr leaf \<longrightarrow> (\<forall>x\<in>set xs. valid_dependent x) \<and> leaf < next_addr s'
            \<and> lookup_path (heap s') a (map weakMapKey xs) = Some leaf)
     \<and> (\<forall>e. r = Inl e \<longrightarrow> e = InvalidDependentKey \<and> (\<exists>x\<in>set xs. \<not> valid_dependent x))"
  using assms
proof (induction xs arbitrary: i a s)
  case Nil
  then show ?case by (auto simp: grows_refl)
next
  case (Cons x xs)
  obtain r1 s1 where st: "insertDependentKey a x i arr s = (r1, s1)"
    by (cases "insertDependentKey a x i arr s") auto
  note S = insert_step[OF Cons.prems(1,2) st]
  show ?case
  proof (cases r1)
    case (Inl e)
    with st Cons.prems(3) have "r = Inl e" "s' = s1" by auto
    with S Inl show ?thesis by auto
  next
    case (Inr a')
    with st Cons.prems(3) have rest: "reduce_from (Suc i) arr a' xs s1 = (r, s')" by auto
    from S Inr have i1: "inv c s1" and a1: "a' < next_addr s1" and g1: "grows s s1"
      and vx: "valid_dependent x" and ch: "children (heap s1 a) (weakMapKey x) = Some a'"
      by auto
    note R = Cons.IH[OF i1 a1 rest]
    from R have g2: "grows s1 s'" by simp
    from ch g2 have ch': "children (heap s' a) (weakMapKey x) = Some a'"
      unfolding grows_def by blast
    from R g1 vx ch' show ?thesis
      by (auto intro: grows_trans)
  qed
qed

text \<open>A walk along levels that are all there changes nothing.\<close>

lemma reduce_from_existing:
  "lookup_path (heap s) a (map weakMapKey xs) = Some leaf \<Longrightarrow> \<forall>x\<in>set xs. valid_dependent x \<Longrightarrow>
     reduce_from i arr a xs s = (Inr leaf, s)"
proof (induction xs arbitrary: i a)
  case Nil
  then show ?case by simp
next
  case (Cons x xs)
  then obtain b where b: "children (heap s a) (weakMapKey x) = Some b"
    and r: "lookup_path (heap s) b (map weakMapKey xs) = Some leaf"
    by (auto split: option.splits)
  from Cons.prems(2) have vx: "valid_dependent x" by simp
  from Cons.IH[OF r, of "Suc i"] Cons.prems(2) insert_existing[OF vx b, of i arr]
  show ?case by simp
qed

lemma reduce_from_append:
  "reduce_from i arr a (xs @ ys) s =
     (case reduce_from i arr a xs s of
        (Inl e, s') \<Rightarrow> (Inl e, s')
      | (Inr b, s') \<Rightarrow> reduce_from (i + length xs) arr b ys s')"
  by (induction xs arbitrary: i a s) (auto split: prod.splits sum.splits)

lemma reduce_from_valid:
  assumes "inv c s" "a < next_addr s" "\<forall>x\<in>set xs. valid_dependent x"
  shows "\<exists>leaf s'. reduce_from i arr a xs s = (Inr leaf, s')"
proof -
  obtain r s' where e: "reduce_from i arr a xs s = (r, s')"
    by (cases "reduce_from i arr a xs s") auto
  from reduce_from_walk[OF assms(1,2) e] assms(3) e show ?thesis
    by (cases r) auto
qed

subsection \<open>The steps of a call\<close>

lemma same_dependent_key:
  "same_dependent x y \<Longrightarrow> weakMapKey x = weakMapKey y \<and> valid_dependent x = valid_dependent y"
  by (cases x; cases y) (auto simp: same_dependent_def weakMapKey_def valid_dependent_def)

lemma same_dependents_keys:
  "list_all2 same_dependent xs ys \<Longrightarrow>
     map weakMapKey xs = map weakMapKey ys
     \<and> ((\<forall>x\<in>set xs. valid_dependent x) \<longleftrightarrow> (\<forall>y\<in>set ys. valid_dependent y))"
  by (induction rule: list_all2_induct) (auto dest: same_dependent_key)

text \<open>From the result of a call to the steps it took.\<close>

lemma lookup_or_compute_cases:
  assumes "lookup_or_compute rt c D args leaf s = (r, s1)"
  shows "(\<exists>e. cache_key rt c args = Inl e \<and> r = Inl e \<and> s1 = s)
     \<or> (\<exists>k v. cache_key rt c args = Inr k \<and> results (heap s leaf) k = Some v \<and> r = Inr v \<and> s1 = s)
     \<or> (\<exists>k w. cache_key rt c args = Inr k \<and> results (heap s leaf) k = None
            \<and> selector c = NonFn w \<and> r = Inl NotCallable \<and> s1 = s)
     \<or> (\<exists>k sel. cache_key rt c args = Inr k \<and> results (heap s leaf) k = None
            \<and> selector c = Fn sel \<and> \<not> is_Map (heap s leaf) \<and> r = Inl InvalidWeakMapKey
            \<and> s1 = s\<lparr>selector_calls := Suc (selector_calls s)\<rparr>)
     \<or> (\<exists>k sel m. cache_key rt c args = Inr k \<and> results (heap s leaf) k = None
            \<and> selector c = Fn sel \<and> set_result (heap s leaf) k (sel D args) = Inr m
            \<and> r = Inr (sel D args)
            \<and> s1 = s\<lparr>selector_calls := Suc (selector_calls s), heap := (heap s)(leaf := m)\<rparr>)"
  using assms
  by (auto simp: lookup_or_compute_def Let_def
      split: sum.splits option.splits jsarg.splits dest: set_result_Inl)

text \<open>Every operation keeps the shape of the heap.\<close>

lemma inv_set_result:
  assumes "inv c s" "set_result (heap s leaf) k v = Inr m" "selector c = Fn sel"
  shows "inv c (s\<lparr>selector_calls := n, heap := (heap s)(leaf := m)\<rparr>)"
proof -
  from set_result_Inr[OF assms(2)] have m: "children m = children (heap s leaf)"
    "results m = (results (heap s leaf))(k \<mapsto> v)" "is_Map m" "is_Map (heap s leaf)"
    by auto
  define h' where "h' = (heap s)(leaf := m)"
  have ch: "\<And>a. children (h' a) = children (heap s a)"
    using m by (auto simp: h'_def)
  have lf: "leaf < next_addr s"
  proof (rule ccontr)
    assume "\<not> leaf < next_addr s"
    with assms(1) have "heap s leaf = WeakMap Map.empty" unfolding inv_def by simp
    with m(4) show False by simp
  qed
  have rt: "leaf \<noteq> cache s" using assms(1) m(4) unfolding inv_def by auto
  have "inv c (s\<lparr>selector_calls := n, heap := h'\<rparr>)"
    using assms(1,3) lf rt unfolding inv_def
    by (simp add: ch) (auto simp: h'_def)
  then show ?thesis by (simp add: h'_def)
qed

lemma inv_selector_calls: "inv c s \<Longrightarrow> inv c (s\<lparr>selector_calls := n\<rparr>)"
  by (simp add: inv_def)

lemma lookup_or_compute_inv:
  assumes "inv c s" "lookup_or_compute rt c D args leaf s = (r, s1)"
  shows "inv c s1"
  using lookup_or_compute_cases[OF assms(2)] assms(1)
  by (auto intro: inv_set_result inv_selector_calls)

lemma lookup_or_compute_frame:
  assumes "lookup_or_compute rt c D args leaf s = (r, s1)"
  shows "cache s1 = cache s \<and> next_addr s1 = next_addr s
     \<and> (\<forall>a. children (heap s1 a) = children (heap s a))
     \<and> (\<forall>a. is_Map (heap s1 a) = is_Map (heap s a))
     \<and> (\<forall>a. a \<noteq> leaf \<longrightarrow> results (heap s1 a) = results (heap s a))
     \<and> selector_calls s \<le> selector_calls s1 \<and> selector_calls s1 \<le> Suc (selector_calls s)"
  using lookup_or_compute_cases[OF assms]
  by (auto dest!: set_result_Inr split: if_splits)

lemma cachedSelector_cases:
  assumes "cachedSelector rt c st args s = (r, s1)"
  shows "(\<exists>w. getDependents c = NonFn w \<and> r = Inl NotCallable \<and> s1 = s)
     \<or> (\<exists>gd. getDependents c = Fn gd \<and> args_rejected rt c args \<and> r = Inl CacheKeyError \<and> s1 = s)
     \<or> (\<exists>gd e. getDependents c = Fn gd \<and> \<not> args_rejected rt c args
            \<and> reduce (gd st args) (cache s) s = (Inl e, s1) \<and> r = Inl e)
     \<or> (\<exists>gd leaf s'. getDependents c = Fn gd \<and> \<not> args_rejected rt c args
            \<and> reduce (gd st args) (cache s) s = (Inr leaf, s')
            \<and> lookup_or_compute rt c (gd st args) args leaf s' = (r, s1))"
  using assms
  by (auto simp: cachedSelector_def Let_def split: jsarg.splits if_splits prod.splits sum.splits)

lemma cachedSelector_inv:
  assumes "inv c s"
  shows "inv c (snd (cachedSelector rt c st args s))"
proof -
  obtain r s1 where e: "cachedSelector rt c st args s = (r, s1)"
    by (cases "cachedSelector rt c st args s") auto
  have root: "cache s < next_addr s" using assms by (simp add: inv_def)
  from cachedSelector_cases[OF e] have "inv c s1"
  proof (elim disjE exE conjE)
    fix gd e'
    assume "reduce (gd st args) (cache s) s = (Inl e', s1)"
    then show ?thesis
      using reduce_from_walk[OF assms root, of 0 "gd st args" "gd st args" "Inl e'" s1]
      by (simp add: reduce_def)
  next
    fix gd leaf s'
    assume "reduce (gd st args) (cache s) s = (Inr leaf, s')"
      and l: "lookup_or_compute rt c (gd st args) args leaf s' = (r, s1)"
    then have "inv c s'"
      using reduce_from_walk[OF assms root, of 0 "gd st args" "gd st args" "Inr leaf" s']
      by (simp add: reduce_def)
    with l show ?thesis by (rule lookup_or_compute_inv[rotated])
  qed (use assms in auto)
  with e show ?thesis by simp
qed

lemma treeSelect_inv: "treeSelect rt gd sel opts = Inr (c, s) \<Longrightarrow> inv c s"
  by (auto simp: treeSelect_def initial_state_def inv_def split: if_splits)

lemma clearCache_inv:
  assumes "inv c s"
  shows "inv c (clearCache s)"
proof -
  have e: "heap s (next_addr s) = WeakMap Map.empty"
    using assms unfolding inv_def by simp
  then have h: "(heap s)(next_addr s := WeakMap Map.empty) = heap s"
    by (simp add: fun_upd_idem)
  have "\<And>a k. children (heap s a) k \<noteq> Some (next_addr s)"
    using assms unfolding inv_def by (metis less_irrefl)
  with assms e show ?thesis
    unfolding inv_def clearCache_def by (simp add: h) (metis less_Suc_eq)
qed

lemma reachable_inv: "reachable c s \<Longrightarrow> inv c s"
  by (induction rule: reachable.induct)
     (auto intro: treeSelect_inv cachedSelector_inv clearCache_inv)

subsection \<open>Hits\<close>

lemma reduce_walk:
  assumes "inv c s" "reduce D (cache s) s = (r, s')"
  shows "inv c s' \<and> grows s s'
     \<and> (\<forall>leaf. r = Inr leaf \<longrightarrow> (\<forall>x\<in>set D. valid_dependent x) \<and> leaf < next_addr s'
            \<and> lookup_path (heap s') (cache s') (map weakMapKey D) = Some leaf)
     \<and> (\<forall>e. r = Inl e \<longrightarrow> e = InvalidDependentKey \<and> (\<exists>x\<in>set D. \<not> valid_dependent x))"
proof -
  have root: "cache s < next_addr s" using assms(1) by (simp add: inv_def)
  from assms(2) have e: "reduce_from 0 D (cache s) D s = (r, s')" by (simp add: reduce_def)
  from reduce_from_walk[OF assms(1) root e] show ?thesis
    by (auto simp: grows_def)
qed

lemma reduce_existing:
  "lookup_path (heap s) (cache s) (map weakMapKey D) = Some leaf \<Longrightarrow>
     \<forall>x\<in>set D. valid_dependent x \<Longrightarrow> reduce D (cache s) s = (Inr leaf, s)"
  by (simp add: reduce_def reduce_from_existing)

text \<open>A call that returned a Result leaves it stored at the end of its path.\<close>

lemma call_stores:
  assumes "inv c s" "cachedSelector rt c st args s = (Inr v, s1)" "getDependents c = Fn gd"
  shows "\<exists>leaf k. cache_key rt c args = Inr k \<and> (\<forall>x\<in>set (gd st args). valid_dependent x)
     \<and> lookup_path (heap s1) (cache s1) (map weakMapKey (gd st args)) = Some leaf
     \<and> results (heap s1 leaf) k = Some v
     \<and> selector_calls s1 \<le> Suc (selector_calls s) \<and> \<not> args_rejected rt c args"
proof -
  from cachedSelector_cases[OF assms(2)] assms(3) obtain leaf s' where
    nr: "\<not> args_rejected rt c args" and
    w: "reduce (gd st args) (cache s) s = (Inr leaf, s')" and
    l: "lookup_or_compute rt c (gd st args) args leaf s' = (Inr v, s1)"
    by auto
  from reduce_walk[OF assms(1) w] have v: "\<forall>x\<in>set (gd st args). valid_dependent x"
    and p: "lookup_path (heap s') (cache s') (map weakMapKey (gd st args)) = Some leaf"
    and g: "grows s s'" by auto
  note F = lookup_or_compute_frame[OF l]
  from F have "lookup_path (heap s1) (cache s1) (map weakMapKey (gd st args))
      = lookup_path (heap s') (cache s') (map weakMapKey (gd st args))"
    using lookup_path_cong[of "heap s1" "heap s'" "cache s'"] by simp
  with p have p1: "lookup_path (heap s1) (cache s1) (map weakMapKey (gd st args)) = Some leaf"
    by simp
  from lookup_or_compute_cases[OF l] have "\<exists>k. cache_key rt c args = Inr k \<and> results (heap s1 leaf) k = Some v"
  proof (elim disjE exE conjE)
    fix k sel m
    assume "cache_key rt c args = Inr k" "set_result (heap s' leaf) k (sel (gd st args) args) = Inr m"
      "Inr v = Inr (sel (gd st args) args)"
      "s1 = s'\<lparr>selector_calls := Suc (selector_calls s'), heap := (heap s')(leaf := m)\<rparr>"
    then show ?thesis using set_result_Inr[of "heap s' leaf" k v m] by simp
  qed simp_all
  then obtain k where
    k: "cache_key rt c args = Inr k" and r: "results (heap s1 leaf) k = Some v"
    by blast
  from F g have "selector_calls s1 \<le> Suc (selector_calls s)" by (simp add: grows_def)
  with v p1 k r nr show ?thesis by blast
qed

lemma call_hit:
  assumes "getDependents c = Fn gd" "\<not> args_rejected rt c args"
    "\<forall>x\<in>set (gd st args). valid_dependent x"
    "lookup_path (heap s) (cache s) (map weakMapKey (gd st args)) = Some leaf"
    "cache_key rt c args = Inr k" "results (heap s leaf) k = Some v"
  shows "cachedSelector rt c st args s = (Inr v, s)"
  using assms(1,2,5,6) reduce_existing[OF assms(4,3)]
  by (simp add: cachedSelector_def lookup_or_compute_def)

lemma second_call_hits:
  assumes "inv c s" "cachedSelector rt c st args s = (Inr v, s1)" "getDependents c = Fn gd"
    "list_all2 same_dependent (gd st args) (gd st2 args2)"
    "cache_key rt2 c args2 = cache_key rt c args" "\<not> args_rejected rt2 c args2"
  shows "cachedSelector rt2 c st2 args2 s1 = (Inr v, s1) \<and> selector_calls s1 \<le> Suc (selector_calls s)"
proof -
  from call_stores[OF assms(1,2,3)] obtain leaf k where
    k: "cache_key rt c args = Inr k" and v: "\<forall>x\<in>set (gd st args). valid_dependent x"
    and p: "lookup_path (heap s1) (cache s1) (map weakMapKey (gd st args)) = Some leaf"
    and r: "results (heap s1 leaf) k = Some v"
    and n: "selector_calls s1 \<le> Suc (selector_calls s)" by blast
  note K = same_dependents_keys[OF assms(4)]
  from K v have v2: "\<forall>x\<in>set (gd st2 args2). valid_dependent x" by simp
  from K p have p2: "lookup_path (heap s1) (cache s1) (map weakMapKey (gd st2 args2)) = Some leaf"
    by simp
  from assms(5) k have k2: "cache_key rt2 c args2 = Inr k" by simp
  from call_hit[OF assms(3,6) v2 p2 k2 r] n show ?thesis by simp
qed

subsection \<open>The errors of a call\<close>

lemma isObject_iff: "isObject a \<longleftrightarrow> (\<exists>n. a = JRef PlainObject n \<or> a = JRef Array n)"
  by (cases a rule: typeof.cases) (auto simp: isObject_def)

lemma insert_error: "insertDependentKey a x i arr s = (Inl e, s') \<Longrightarrow> e = InvalidDependentKey"
  by (auto simp: insertDependentKey_def Let_def split: if_splits option.splits)

lemma reduce_from_error: "reduce_from i arr a xs s = (Inl e, s') \<Longrightarrow> e = InvalidDependentKey"
  by (induction xs arbitrary: i a s) (auto split: prod.splits sum.splits dest: insert_error)

lemma join_element_error: "join_element rt x = Inl e \<Longrightarrow> e = SymbolToString"
  by (cases x) auto

lemma join_error: "join rt xs = Inl e \<Longrightarrow> e = SymbolToString"
  by (induction rt xs rule: join.induct)
     (auto split: sum.splits dest: join_element_error)

lemma cache_key_error: "cache_key rt c args = Inl e \<Longrightarrow> e = SymbolToString"
  by (auto simp: cache_key_def defaultGetCacheKey_def split: option.splits dest: join_error)

lemma lookup_or_compute_error:
  "lookup_or_compute rt c D args leaf s = (Inl e, s') \<Longrightarrow>
     e = SymbolToString \<or> e = NotCallable \<or> e = InvalidWeakMapKey"
  using lookup_or_compute_cases[of rt c D args leaf s "Inl e" s']
  by (auto dest: cache_key_error)

text \<open>The definitions to unfold when a call is evaluated on the example selectors.\<close>

lemmas call_defs =
  cachedSelector_def lookup_or_compute_def reduce_def insertDependentKey_def weakMapKey_def
  cache_key_def defaultGetCacheKey_def args_rejected_def isObject_def initial_state_def
  clearCache_def Let_def

lemmas example_defs =
  dev_runtime_def prod_runtime_def by_state_def by_list_def by_list_keyed_def
  example_toString_def

subsection \<open>Dependents that are the same for the cache, and joined keys\<close>

lemma reachable_initial:
  "reachable \<lparr>getDependents = Fn g, selector = Fn f, getCacheKey = k\<rparr> initial_state"
proof -
  have "treeSelect dev_runtime (Fn g) (Fn f) k
      = Inr (\<lparr>getDependents = Fn g, selector = Fn f, getCacheKey = k\<rparr>, initial_state)"
    by (simp add: treeSelect_def)
  then show ?thesis by (rule reachable.init)
qed

lemma insert_same:
  assumes "same_dependent x y" "length arr = length arr'"
  shows "insertDependentKey a x i arr s = insertDependentKey a y i arr' s"
proof (cases "x = y")
  case True
  with assms(2) show ?thesis by (simp add: insertDependentKey_def Let_def cong: option.case_cong)
next
  case False
  with assms(1) have n: "\<not> not_nullish x" "\<not> not_nullish y"
    by (auto simp: same_dependent_def)
  then have "weakMapKey x = NULLISH_KEY" "weakMapKey y = NULLISH_KEY"
    by (cases x; cases y; simp add: weakMapKey_def)+
  with assms(2) n show ?thesis
    by (simp add: insertDependentKey_def Let_def cong: option.case_cong)
qed

lemma reduce_from_same:
  "list_all2 same_dependent xs ys \<Longrightarrow> length arr = length arr' \<Longrightarrow>
     reduce_from i arr a xs s = reduce_from i arr' a ys s"
proof (induction arbitrary: i a s rule: list_all2_induct)
  case Nil
  then show ?case by simp
next
  case (Cons x xs y ys)
  from insert_same[OF Cons.hyps(1) Cons.prems, of a i s] Cons.IH[OF Cons.prems]
  show ?case by (simp split: prod.splits sum.splits)
qed

lemma reduce_same:
  "list_all2 same_dependent xs ys \<Longrightarrow> reduce xs a s = reduce ys a s"
  unfolding reduce_def by (rule reduce_from_same) (auto dest: list_all2_lengthD)

lemma same_dependent_refl: "list_all2 same_dependent xs xs"
  by (simp add: list_all2_refl same_dependent_def)

lemma join_append:
  "xs \<noteq> [] \<Longrightarrow> ys \<noteq> [] \<Longrightarrow>
     join rt (xs @ ys) =
       (case join rt xs of
          Inl e \<Rightarrow> Inl e
        | Inr a \<Rightarrow> (case join rt ys of Inl e \<Rightarrow> Inl e | Inr b \<Rightarrow> Inr (a @ '','' @ b)))"
proof (induction rt xs rule: join.induct)
  case (1 rt)
  then show ?case by simp
next
  case (2 rt x)
  then show ?case by (cases ys) (auto split: sum.splits)
next
  case (3 rt x y zs)
  then show ?case by (auto split: sum.splits)
qed

subsection \<open>Walks from an empty map\<close>

lemma lookup_path_no_children:
  "children (h a) = Map.empty \<Longrightarrow> lookup_path h a p = (if p = [] then Some a else None)"
  by (cases p) simp_all

lemma tree_view_clearCache:
  "tree_view (clearCache s) p = (if p = [] then Some (False, Map.empty) else None)"
  by (simp add: tree_view_def clearCache_def lookup_path_no_children)

text \<open>A walk that starts at a map without entries creates every level, the last as a \<open>Map\<close>.\<close>

lemma reduce_from_fresh:
  assumes "inv c s" "a < next_addr s" "children (heap s a) = Map.empty"
    "\<forall>x\<in>set xs. valid_dependent x" "xs \<noteq> []" "i + length xs = length arr"
  shows "\<exists>leaf s'. reduce_from i arr a xs s = (Inr leaf, s') \<and> heap s' leaf = Map Map.empty Map.empty
           \<and> inv c s' \<and> grows s s'"
  using assms
proof (induction xs arbitrary: i a s)
  case Nil
  then show ?case by simp
next
  case (Cons x xs)
  define obj :: "'b mapobj" where
    "obj = (if i = length arr - 1 then Map Map.empty Map.empty else WeakMap Map.empty)"
  define n where "n = next_addr s"
  define s1 where "s1 = s\<lparr>heap := (heap s)(n := obj, a := set_child (heap s a) (weakMapKey x) n),
      next_addr := Suc n\<rparr>"
  have vx: "valid_dependent x" using Cons.prems(4) by simp
  have none: "children (heap s a) (weakMapKey x) = None" using Cons.prems(3) by simp
  have st: "insertDependentKey a x i arr s = (Inr n, s1)"
    using insert_new[OF vx none, of i arr] by (simp add: s1_def n_def obj_def)
  note S = insert_step[OF Cons.prems(1,2) st]
  have an: "a \<noteq> n" using Cons.prems(2) by (simp add: n_def)
  have hn: "heap s1 n = obj" using an by (simp add: s1_def)
  show ?case
  proof (cases "xs = []")
    case True
    with Cons.prems(6) have "i = length arr - 1" by simp
    then have "heap s1 n = Map Map.empty Map.empty" using hn by (simp add: obj_def)
    with True st S show ?thesis by simp
  next
    case False
    have ch: "children (heap s1 n) = Map.empty" using hn by (simp add: obj_def)
    from S have i1: "inv c s1" and n1: "n < next_addr s1" and g1: "grows s s1" by auto
    from Cons.prems(4) have v: "\<forall>x\<in>set xs. valid_dependent x" by simp
    from Cons.prems(6) have l: "Suc i + length xs = length arr" by simp
    from Cons.IH[OF i1 n1 ch v False l] obtain leaf s' where
      "reduce_from (Suc i) arr n xs s1 = (Inr leaf, s')" "heap s' leaf = Map Map.empty Map.empty"
      "inv c s'" "grows s1 s'" by blast
    with st g1 show ?thesis by (auto intro: grows_trans)
  qed
qed

text \<open>A call on a tree whose root has no entries computes, if nothing throws before.\<close>

lemma call_on_empty_root:
  assumes "inv c s" "children (heap s (cache s)) = Map.empty"
    "getDependents c = Fn gd" "selector c = Fn sel" "\<not> args_rejected rt c args"
    "\<forall>x\<in>set (gd state args). valid_dependent x" "gd state args \<noteq> []"
    "cache_key rt c args = Inr k"
  shows "fst (cachedSelector rt c state args s) = Inr (sel (gd state args) args)
       \<and> selector_calls (snd (cachedSelector rt c state args s)) = Suc (selector_calls s)"
proof -
  have root: "cache s < next_addr s" using assms(1) by (simp add: inv_def)
  from reduce_from_fresh[OF assms(1) root assms(2,6,7), of 0 "gd state args"]
  obtain leaf s' where w: "reduce (gd state args) (cache s) s = (Inr leaf, s')"
    and l: "heap s' leaf = Map Map.empty Map.empty" and g: "grows s s'"
    by (auto simp: reduce_def)
  from g have "selector_calls s' = selector_calls s" by (simp add: grows_def)
  with assms(3,4,5,8) w l show ?thesis
    by (simp add: cachedSelector_def lookup_or_compute_def Let_def)
qed

text \<open>With no dependents the leaf map is the root, which is a \<open>WeakMap\<close>.\<close>

lemma call_without_dependents:
  assumes "inv c s" "getDependents c = Fn gd" "gd state args = []"
  shows "cachedSelector rt c state args s =
     (if args_rejected rt c args then (Inl CacheKeyError, s)
      else case cache_key rt c args of
             Inl e \<Rightarrow> (Inl e, s)
           | Inr k \<Rightarrow> (case selector c of
                         NonFn w \<Rightarrow> (Inl NotCallable, s)
                       | Fn sel \<Rightarrow> (Inl InvalidWeakMapKey,
                                     s\<lparr>selector_calls := Suc (selector_calls s)\<rparr>)))"
proof -
  from assms(1) have "\<not> is_Map (heap s (cache s))" by (simp add: inv_def)
  then obtain m where m: "heap s (cache s) = WeakMap m" by (cases "heap s (cache s)") auto
  with assms(2,3) show ?thesis
    by (simp add: cachedSelector_def reduce_def lookup_or_compute_def
        split: sum.splits jsarg.splits)
qed

subsection \<open>What a walk adds to the tree\<close>

text \<open>
  In a grown tree, a path either was there before or ends at a map allocated since, which
  holds no Result.
\<close>

lemma grows_lookup_fresh:
  assumes "inv c s" "grows s s'"
  shows "next_addr s \<le> y \<Longrightarrow> lookup_path (heap s') y p = Some a \<Longrightarrow> next_addr s \<le> a"
proof (induction p arbitrary: y)
  case Nil
  then show ?case by simp
next
  case (Cons k ks)
  then obtain z where z: "children (heap s' y) k = Some z" and r: "lookup_path (heap s') z ks = Some a"
    by (auto split: option.splits)
  from assms(1) Cons.prems(1) have "heap s y = WeakMap Map.empty" unfolding inv_def by blast
  then have "children (heap s y) k = None" by simp
  with assms(2) z have "next_addr s \<le> z" unfolding grows_def by (metis option.distinct(1))
  with Cons.IH r show ?case by blast
qed

lemma grows_lookup_new:
  assumes "inv c s" "grows s s'"
  shows "lookup_path (heap s') r p = Some a \<Longrightarrow> lookup_path (heap s) r p = Some a \<or> next_addr s \<le> a"
proof (induction p arbitrary: r)
  case Nil
  then show ?case by simp
next
  case (Cons k ks)
  then obtain y where y: "children (heap s' r) k = Some y" and rest: "lookup_path (heap s') y ks = Some a"
    by (auto split: option.splits)
  from assms(2) y have "children (heap s r) k = Some y \<or> next_addr s \<le> y"
    unfolding grows_def by blast
  then show ?case
  proof
    assume "children (heap s r) k = Some y"
    with Cons.IH[OF rest] show ?thesis by auto
  next
    assume "next_addr s \<le> y"
    from grows_lookup_fresh[OF assms this rest] show ?thesis by simp
  qed
qed

lemma inv_fresh_results: "inv c s \<Longrightarrow> next_addr s \<le> a \<Longrightarrow> results (heap s a) = Map.empty"
  unfolding inv_def by (metis results.simps(1))

lemma grows_cached_result:
  assumes "inv c s" "grows s s'"
  shows "cached_result s' p k = cached_result s p k"
proof (cases "lookup_path (heap s') (cache s) p")
  case None
  then have "lookup_path (heap s) (cache s) p = None"
    using grows_lookup[OF assms(2), of "cache s" p] by (cases "lookup_path (heap s) (cache s) p") auto
  with None assms(2) show ?thesis by (simp add: cached_result_def grows_def)
next
  case (Some a)
  have c: "cache s' = cache s" and r: "results (heap s' a) = results (heap s a)"
    using assms(2) by (simp_all add: grows_def)
  from grows_lookup_new[OF assms Some] show ?thesis
  proof
    assume "lookup_path (heap s) (cache s) p = Some a"
    with Some c r show ?thesis by (simp add: cached_result_def)
  next
    assume n: "next_addr s \<le> a"
    then have e: "results (heap s a) = Map.empty" by (rule inv_fresh_results[OF assms(1)])
    have "lookup_path (heap s) (cache s) p = None"
    proof (cases "lookup_path (heap s) (cache s) p")
      case (Some b)
      have "cache s < next_addr s" using assms(1) by (simp add: inv_def)
      from inv_lookup_lt[OF assms(1) this Some] have "b < next_addr s" .
      moreover from grows_lookup[OF assms(2) Some] \<open>lookup_path (heap s') (cache s) p = Some a\<close>
      have "a = b" by simp
      ultimately show ?thesis using n by simp
    qed simp
    with Some c r e show ?thesis by (simp add: cached_result_def)
  qed
qed

text \<open>The paths that a walk changes are those of the levels it goes through.\<close>

lemma reduce_from_paths:
  assumes "inv c s" "lookup_path (heap s) (cache s) pre = Some a"
    "reduce_from i arr a xs s = (r, s')"
  shows "lookup_path (heap s') (cache s) p \<noteq> lookup_path (heap s) (cache s) p \<Longrightarrow>
     \<exists>j. 0 < j \<and> j \<le> length xs \<and> p = pre @ map weakMapKey (take j xs)
         \<and> (\<forall>x\<in>set (take j xs). valid_dependent x)"
  using assms
proof (induction xs arbitrary: i a s pre)
  case Nil
  then show ?case by simp
next
  case (Cons x xs)
  have root: "cache s < next_addr s" using Cons.prems(2) by (simp add: inv_def)
  from inv_lookup_lt[OF Cons.prems(2) root Cons.prems(3)] have an: "a < next_addr s" .
  obtain r1 s1 where st: "insertDependentKey a x i arr s = (r1, s1)"
    by (cases "insertDependentKey a x i arr s") auto
  note S = insert_step[OF Cons.prems(2) an st]
  show ?case
  proof (cases r1)
    case (Inl e)
    with st Cons.prems(4) S have "s' = s" by auto
    with Cons.prems(1) show ?thesis by simp
  next
    case (Inr a')
    with st Cons.prems(4) have rest: "reduce_from (Suc i) arr a' xs s1 = (r, s')" by auto
    from S Inr have i1: "inv c s1" and g1: "grows s s1" and vx: "valid_dependent x"
      and ch: "children (heap s1 a) (weakMapKey x) = Some a'" by auto
    from g1 have c1: "cache s1 = cache s" by (simp add: grows_def)
    from grows_lookup[OF g1 Cons.prems(3)] ch
    have pre1: "lookup_path (heap s1) (cache s1) (pre @ [weakMapKey x]) = Some a'"
      by (simp add: lookup_path_snoc c1)
    have first: "p = pre @ [weakMapKey x]"
      if d: "lookup_path (heap s1) (cache s) p \<noteq> lookup_path (heap s) (cache s) p"
    proof (cases "children (heap s a) (weakMapKey x)")
      case (Some b)
      from insert_existing[OF vx Some, of i arr] st have "s1 = s" by simp
      with d show ?thesis by simp
    next
      case None
      define n where "n = next_addr s"
      define obj :: "'b mapobj" where
        "obj = (if i = length arr - 1 then Map Map.empty Map.empty else WeakMap Map.empty)"
      have h1: "heap s1 = (heap s)(n := obj, a := set_child (heap s a) (weakMapKey x) n)"
        using insert_new[OF vx None, of i arr] st by (auto simp: n_def obj_def)
      have hn: "children (heap s n) = Map.empty"
        using Cons.prems(2) unfolding inv_def n_def by simp
      have ob: "children obj = Map.empty" by (simp add: obj_def)
      have ne: "a \<noteq> n" using an by (simp add: n_def)
      note L = lookup_path_alloc[OF None hn ne ob, of "cache s" p, folded h1]
      from d L have "p \<noteq> []" "last p = weakMapKey x"
        "lookup_path (heap s) (cache s) (butlast p) = Some a"
        by (auto split: if_splits)
      with inv_path_inj[OF Cons.prems(2) _ Cons.prems(3)] have "butlast p = pre" by blast
      with \<open>p \<noteq> []\<close> \<open>last p = weakMapKey x\<close> show ?thesis
        by (metis append_butlast_last_id)
    qed
    show ?thesis
    proof (cases "lookup_path (heap s1) (cache s) p = lookup_path (heap s) (cache s) p")
      case False
      with first have "p = pre @ map weakMapKey (take 1 (x # xs))" by simp
      with vx show ?thesis by (intro exI[of _ 1]) simp
    next
      case True
      with Cons.prems(1) have "lookup_path (heap s') (cache s1) p \<noteq> lookup_path (heap s1) (cache s1) p"
        by (simp add: c1)
      from Cons.IH[OF this i1 pre1 rest] obtain j where
        j: "0 < j" "j \<le> length xs" "p = (pre @ [weakMapKey x]) @ map weakMapKey (take j xs)"
        "\<forall>x\<in>set (take j xs). valid_dependent x" by blast
      with vx show ?thesis by (intro exI[of _ "Suc j"]) simp
    qed
  qed
qed

subsection \<open>Depth\<close>

text \<open>A walk over a sequence of the tree's depth keeps the depth.\<close>

lemma reduce_from_depth:
  assumes "inv c s" "has_depth n s" "lookup_path (heap s) (cache s) pre = Some a"
    "length pre = i" "i + length xs = n" "length arr = n"
    "reduce_from i arr a xs s = (r, s')"
  shows "has_depth n s'"
  using assms
proof (induction xs arbitrary: i a s pre)
  case Nil
  then show ?case by simp
next
  case (Cons x xs)
  have root: "cache s < next_addr s" using Cons.prems(1) by (simp add: inv_def)
  from inv_lookup_lt[OF Cons.prems(1) root Cons.prems(3)] have an: "a < next_addr s" .
  obtain r1 s1 where st: "insertDependentKey a x i arr s = (r1, s1)"
    by (cases "insertDependentKey a x i arr s") auto
  note S = insert_step[OF Cons.prems(1) an st]
  show ?case
  proof (cases r1)
    case (Inl e)
    with st Cons.prems(7) S have "s' = s" by auto
    with Cons.prems(2) show ?thesis by simp
  next
    case (Inr a')
    with st Cons.prems(7) have rest: "reduce_from (Suc i) arr a' xs s1 = (r, s')" by auto
    from S Inr have i1: "inv c s1" and g1: "grows s s1" and vx: "valid_dependent x"
      and ch: "children (heap s1 a) (weakMapKey x) = Some a'" by auto
    from g1 have c1: "cache s1 = cache s" by (simp add: grows_def)
    from grows_lookup[OF g1 Cons.prems(3)] ch
    have pre1: "lookup_path (heap s1) (cache s1) (pre @ [weakMapKey x]) = Some a'"
      by (simp add: lookup_path_snoc c1)
    have d1: "has_depth n s1"
    proof (cases "children (heap s a) (weakMapKey x)")
      case (Some b)
      from insert_existing[OF vx Some, of i arr] st have "s1 = s" by simp
      with Cons.prems(2) show ?thesis by simp
    next
      case None
      define m where "m = next_addr s"
      define obj :: "'b mapobj" where
        "obj = (if i = length arr - 1 then Map Map.empty Map.empty else WeakMap Map.empty)"
      have h1: "heap s1 = (heap s)(m := obj, a := set_child (heap s a) (weakMapKey x) m)"
        using insert_new[OF vx None, of i arr] st by (auto simp: m_def obj_def)
      have hn: "children (heap s m) = Map.empty"
        using Cons.prems(1) unfolding inv_def m_def by simp
      have ob: "children obj = Map.empty" by (simp add: obj_def)
      have ne: "a \<noteq> m" using an by (simp add: m_def)
      have km: "is_Map (heap s1 m) \<longleftrightarrow> Suc i = n"
        using ne Cons.prems(5,6) by (auto simp: h1 obj_def)
      have ko: "\<And>b. b \<noteq> m \<Longrightarrow> is_Map (heap s1 b) = is_Map (heap s b)"
        by (simp add: h1)
      show ?thesis
        unfolding has_depth_def
      proof (intro allI impI)
        fix p b
        assume "lookup_path (heap s1) (cache s1) p = Some b"
        then have L: "lookup_path (heap s1) (cache s) p = Some b" by (simp add: c1)
        note A = lookup_path_alloc[OF None hn ne ob, of "cache s" p, folded h1]
        show "length p \<le> n \<and> (is_Map (heap s1 b) \<longleftrightarrow> length p = n)"
        proof (cases "p \<noteq> [] \<and> last p = weakMapKey x
            \<and> lookup_path (heap s) (cache s) (butlast p) = Some a")
          case True
          with A L have b: "b = m" by simp
          from True inv_path_inj[OF Cons.prems(1) _ Cons.prems(3)] have "butlast p = pre" by blast
          with True Cons.prems(4) have "length p = Suc i"
            by (metis append_butlast_last_id length_append_singleton)
          with b km Cons.prems(5) show ?thesis by auto
        next
          case False
          with A L have o: "lookup_path (heap s) (cache s) p = Some b" by auto
          from inv_lookup_lt[OF Cons.prems(1) root o] have "b \<noteq> m" by (simp add: m_def)
          with ko o Cons.prems(2) show ?thesis unfolding has_depth_def by auto
        qed
      qed
    qed
    have l1: "length (pre @ [weakMapKey x]) = Suc i" using Cons.prems(4) by simp
    have n1: "Suc i + length xs = n" using Cons.prems(5) by simp
    from Cons.IH[OF i1 d1 pre1 l1 n1 Cons.prems(6) rest] show ?thesis .
  qed
qed

lemma has_depth_frame:
  assumes "has_depth n s" "cache s' = cache s" "\<And>a. children (heap s' a) = children (heap s a)"
    "\<And>a. is_Map (heap s' a) = is_Map (heap s a)"
  shows "has_depth n s'"
proof -
  have "\<And>a p. lookup_path (heap s') a p = lookup_path (heap s) a p"
    by (rule lookup_path_cong) (rule assms(3))
  with assms show ?thesis by (simp add: has_depth_def)
qed

lemma cachedSelector_depth:
  assumes "inv c s" "has_depth n s" "getDependents c = Fn gd" "length (gd state args) = n"
  shows "has_depth n (snd (cachedSelector rt c state args s))"
proof -
  obtain r s1 where e: "cachedSelector rt c state args s = (r, s1)"
    by (cases "cachedSelector rt c state args s") auto
  have p0: "lookup_path (heap s) (cache s) [] = Some (cache s)" by simp
  have walk: "has_depth n sw" if "reduce (gd state args) (cache s) s = (rw, sw)" for rw sw
    using reduce_from_depth[OF assms(1,2) p0, of 0 "gd state args" "gd state args" rw sw] that assms(4)
    by (simp add: reduce_def)
  from cachedSelector_cases[OF e] have "has_depth n s1"
  proof (elim disjE exE conjE)
    fix gd' e'
    assume "getDependents c = Fn gd'" "reduce (gd' state args) (cache s) s = (Inl e', s1)"
    with assms(3) walk show ?thesis by auto
  next
    fix gd' leaf s'
    assume "getDependents c = Fn gd'" "reduce (gd' state args) (cache s) s = (Inr leaf, s')"
      and l: "lookup_or_compute rt c (gd' state args) args leaf s' = (r, s1)"
    with assms(3) walk have "has_depth n s'" by auto
    with lookup_or_compute_frame[OF l] show ?thesis
      by (intro has_depth_frame[of n s' s1]) auto
  qed (use assms(2) in auto)
  with e show ?thesis by simp
qed

lemma reachable_has_depth:
  assumes "reachable c s" "getDependents c = Fn gd" "\<forall>state args. length (gd state args) = n" "0 < n"
  shows "has_depth n s"
  using assms(1)
proof (induction rule: reachable.induct)
  case (init rt gd' sel opts s)
  then have "s = initial_state" by (auto simp: treeSelect_def split: if_splits)
  with assms(4) show ?case
    by (simp add: has_depth_def initial_state_def lookup_path_no_children)
next
  case (call s rt state args)
  from cachedSelector_depth[OF reachable_inv[OF call.hyps] call.IH assms(2)] assms(3)
  show ?case by simp
next
  case (clear s)
  have "\<And>p. lookup_path (heap (clearCache s)) (cache (clearCache s)) p
      = (if p = [] then Some (next_addr s) else None)"
    by (simp add: clearCache_def lookup_path_no_children)
  with assms(4) show ?case
    by (auto simp: has_depth_def clearCache_def split: if_splits)
qed

subsection \<open>Misses, and the Results a call leaves alone\<close>

lemma lookup_path_prefix:
  "lookup_path h a (p @ q) = Some b \<Longrightarrow> \<exists>x. lookup_path h a p = Some x"
  by (simp add: lookup_path_append split: option.splits)

text \<open>A call that finds no Result stored for its path and key computes.\<close>

lemma call_miss:
  assumes "inv c s" "getDependents c = Fn gd" "cachedSelector rt c state args s = (Inr v, s1)"
    "cache_key rt c args = Inr k" "cached_result s (map weakMapKey (gd state args)) k = None"
  shows "selector_calls s1 = Suc (selector_calls s)
       \<and> (\<exists>sel. selector c = Fn sel \<and> v = sel (gd state args) args)"
proof -
  from cachedSelector_cases[OF assms(3)] assms(2) obtain leaf sw where
    w: "reduce (gd state args) (cache s) s = (Inr leaf, sw)" and
    l: "lookup_or_compute rt c (gd state args) args leaf sw = (Inr v, s1)"
    by auto
  from reduce_walk[OF assms(1) w] have g: "grows s sw"
    and p: "lookup_path (heap sw) (cache sw) (map weakMapKey (gd state args)) = Some leaf"
    by auto
  from grows_cached_result[OF assms(1) g] assms(5)
  have "cached_result sw (map weakMapKey (gd state args)) k = None" by simp
  with p have none: "results (heap sw leaf) k = None" by (simp add: cached_result_def)
  from g have n: "selector_calls sw = selector_calls s" by (simp add: grows_def)
  from lookup_or_compute_cases[OF l] show ?thesis
  proof (elim disjE exE conjE)
    fix k' v'
    assume "cache_key rt c args = Inr k'" "results (heap sw leaf) k' = Some v'"
    with assms(4) none show ?thesis by simp
  next
    fix k' sel m
    assume "selector c = Fn sel" "Inr v = Inr (sel (gd state args) args)"
      "s1 = sw\<lparr>selector_calls := Suc (selector_calls sw), heap := (heap sw)(leaf := m)\<rparr>"
    with n show ?thesis by simp
  qed simp_all
qed

text \<open>A call changes the Results of its own path only.\<close>

lemma call_cached_result_frame:
  assumes "inv c s" "getDependents c = Fn gd" "cachedSelector rt c state args s = (r, s1)"
    "p \<noteq> map weakMapKey (gd state args)"
  shows "cached_result s1 p k = cached_result s p k"
proof -
  from cachedSelector_cases[OF assms(3)] show ?thesis
  proof (elim disjE exE conjE)
    fix gd' e
    assume "reduce (gd' state args) (cache s) s = (Inl e, s1)"
    from reduce_walk[OF assms(1) this] have "grows s s1" by simp
    from grows_cached_result[OF assms(1) this] show ?thesis .
  next
    fix gd' leaf sw
    assume gd': "getDependents c = Fn gd'"
      and w: "reduce (gd' state args) (cache s) s = (Inr leaf, sw)"
      and l: "lookup_or_compute rt c (gd' state args) args leaf sw = (r, s1)"
    from gd' assms(2) have e: "gd' = gd" by simp
    from reduce_walk[OF assms(1) w] have g: "grows s sw" and iw: "inv c sw"
      and pl: "lookup_path (heap sw) (cache sw) (map weakMapKey (gd state args)) = Some leaf"
      by (auto simp: e)
    note F = lookup_or_compute_frame[OF l]
    have lp: "lookup_path (heap s1) (cache s1) p = lookup_path (heap sw) (cache sw) p"
      using F lookup_path_cong[of "heap s1" "heap sw" "cache sw" p] by simp
    have "cached_result s1 p k = cached_result sw p k"
    proof (cases "lookup_path (heap sw) (cache sw) p")
      case None
      with lp show ?thesis by (simp add: cached_result_def)
    next
      case (Some a)
      have "a \<noteq> leaf"
      proof
        assume "a = leaf"
        with Some pl have "p = map weakMapKey (gd state args)"
          by (intro inv_path_inj[OF iw, of p leaf]) simp_all
        with assms(4) show False by simp
      qed
      with F have "results (heap s1 a) = results (heap sw a)" by simp
      with lp Some show ?thesis by (simp add: cached_result_def)
    qed
    with grows_cached_result[OF assms(1) g] show ?thesis by simp
  qed simp_all
qed

text \<open>
  The key of an object is the object itself, so two different objects have different
  keys, and an object never has the key of a value that is not that object. Among the
  dependents that are accepted, two have the same key exactly when they are the same
  for the cache.
\<close>

lemma weakMapKey_reference: "is_reference x \<Longrightarrow> weakMapKey x = Key x"
  by (cases x) (simp_all add: weakMapKey_def)

lemma weakMapKey_differs:
  assumes "x \<noteq> y" "is_reference x \<or> is_reference y"
  shows "weakMapKey x \<noteq> weakMapKey y"
proof -
  have "weakMapKey b \<noteq> Key a" if "is_reference a" "a \<noteq> b" for a b
    using that by (cases a) (auto simp: weakMapKey_def)
  with assms show ?thesis
    by (metis weakMapKey_reference)
qed

lemma weakMapKey_eq_iff:
  "valid_dependent x \<Longrightarrow> valid_dependent y \<Longrightarrow>
     weakMapKey x = weakMapKey y \<longleftrightarrow> same_dependent x y"
  by (cases x; cases y) (auto simp: weakMapKey_def valid_dependent_def same_dependent_def)

lemma differ_at_position:
  "i < length xs \<Longrightarrow> i < length ys \<Longrightarrow> f (xs ! i) \<noteq> f (ys ! i) \<Longrightarrow> map f xs \<noteq> map f ys"
  by (metis nth_map)

subsection \<open>Calls on an empty tree\<close>

text \<open>
  On a tree whose root has no entries, the result of a call and the number of
  computations it makes do not depend on the rest of the state.
\<close>

lemma lookup_or_compute_empty_leaf:
  assumes "heap s leaf = Map Map.empty Map.empty"
  shows "fst (lookup_or_compute rt c D args leaf s)
        = (case cache_key rt c args of
             Inl e \<Rightarrow> Inl e
           | Inr k \<Rightarrow> (case selector c of NonFn w \<Rightarrow> Inl NotCallable | Fn sel \<Rightarrow> Inr (sel D args)))
       \<and> selector_calls (snd (lookup_or_compute rt c D args leaf s))
        = (case cache_key rt c args of
             Inl e \<Rightarrow> selector_calls s
           | Inr k \<Rightarrow> (case selector c of NonFn w \<Rightarrow> selector_calls s
                                         | Fn sel \<Rightarrow> Suc (selector_calls s)))"
  using assms
  by (simp add: lookup_or_compute_def Let_def split: sum.splits jsarg.splits)

lemma call_on_empty_root_outcome:
  assumes "inv c s" "children (heap s (cache s)) = Map.empty"
    "getDependents c = Fn gd"
  shows "fst (cachedSelector rt c state args s)
        = (if args_rejected rt c args then Inl CacheKeyError
           else if \<exists>x\<in>set (gd state args). \<not> valid_dependent x then Inl InvalidDependentKey
           else case cache_key rt c args of
                  Inl e \<Rightarrow> Inl e
                | Inr k \<Rightarrow> (case selector c of
                              NonFn w \<Rightarrow> Inl NotCallable
                            | Fn sel \<Rightarrow> if gd state args = [] then Inl InvalidWeakMapKey
                                       else Inr (sel (gd state args) args)))
       \<and> selector_calls (snd (cachedSelector rt c state args s))
        = (if args_rejected rt c args \<or> (\<exists>x\<in>set (gd state args). \<not> valid_dependent x)
           then selector_calls s
           else case cache_key rt c args of
                  Inl e \<Rightarrow> selector_calls s
                | Inr k \<Rightarrow> (case selector c of
                              NonFn w \<Rightarrow> selector_calls s
                            | Fn sel \<Rightarrow> Suc (selector_calls s)))"
proof (cases "args_rejected rt c args")
  case True
  with assms(3) show ?thesis by (simp add: cachedSelector_def)
next
  case nr: False
  show ?thesis
  proof (cases "\<exists>x\<in>set (gd state args). \<not> valid_dependent x")
    case True
    obtain rw sw where w: "reduce (gd state args) (cache s) s = (rw, sw)"
      by (cases "reduce (gd state args) (cache s) s") auto
    note W = reduce_walk[OF assms(1) w]
    from W True have "rw = Inl InvalidDependentKey" by (cases rw) auto
    moreover from W have "selector_calls sw = selector_calls s" by (simp add: grows_def)
    ultimately show ?thesis
      using assms(3) nr True w by (simp add: cachedSelector_def)
  next
    case valid: False
    show ?thesis
    proof (cases "gd state args = []")
      case True
      with call_without_dependents[OF assms(1,3) True, of rt] nr valid show ?thesis
        by (simp split: sum.splits jsarg.splits)
    next
      case False
      have root: "cache s < next_addr s" using assms(1) by (simp add: inv_def)
      from valid have v: "\<forall>x\<in>set (gd state args). valid_dependent x" by simp
      from reduce_from_fresh[OF assms(1) root assms(2) v False, of 0 "gd state args"]
      obtain leaf sw where w: "reduce (gd state args) (cache s) s = (Inr leaf, sw)"
        and l: "heap sw leaf = Map Map.empty Map.empty" and g: "grows s sw"
        by (auto simp: reduce_def)
      from g have n: "selector_calls sw = selector_calls s" by (simp add: grows_def)
      have "cachedSelector rt c state args s
          = lookup_or_compute rt c (gd state args) args leaf sw"
        using assms(3) nr w by (simp add: cachedSelector_def)
      with lookup_or_compute_empty_leaf[OF l, of rt c "gd state args" args] n nr valid False
      show ?thesis by (simp split: sum.splits jsarg.splits)
    qed
  qed
qed

lemma call_after_clear_twice:
  assumes "inv c s"
  shows "fst (cachedSelector rt c state args (clearCache (clearCache s)))
        = fst (cachedSelector rt c state args (clearCache s))
       \<and> selector_calls (snd (cachedSelector rt c state args (clearCache (clearCache s))))
        = selector_calls (snd (cachedSelector rt c state args (clearCache s)))"
proof (cases "getDependents c")
  case (NonFn w)
  then show ?thesis by (simp add: cachedSelector_def clearCache_def)
next
  case (Fn gd)
  note i1 = clearCache_inv[OF assms]
  note i2 = clearCache_inv[OF i1]
  have e1: "children (heap (clearCache s) (cache (clearCache s))) = Map.empty"
    and e2: "children (heap (clearCache (clearCache s)) (cache (clearCache (clearCache s)))) = Map.empty"
    and n: "selector_calls (clearCache (clearCache s)) = selector_calls (clearCache s)"
    by (simp_all add: clearCache_def)
  from call_on_empty_root_outcome[OF i1 e1 Fn, of rt state args]
    call_on_empty_root_outcome[OF i2 e2 Fn, of rt state args]
  show ?thesis unfolding n by simp
qed

subsection \<open>When a call returns a Result\<close>

text \<open>
  In a tree of depth \<open>n\<close>, a call with \<open>n\<close> dependents that are all accepted ends its
  walk at a \<open>Map\<close>, so it returns a Result if its checks pass.
\<close>

lemma call_returns:
  assumes "inv c s" "has_depth n s" "getDependents c = Fn gd" "length (gd state args) = n"
    "selector c = Fn sel" "\<not> args_rejected rt c args"
    "\<forall>x\<in>set (gd state args). valid_dependent x" "cache_key rt c args = Inr k"
  shows "\<exists>v s1. cachedSelector rt c state args s = (Inr v, s1)"
proof -
  have root: "cache s < next_addr s" using assms(1) by (simp add: inv_def)
  from reduce_from_valid[OF assms(1) root assms(7), of 0 "gd state args"]
  obtain leaf sw where w: "reduce (gd state args) (cache s) s = (Inr leaf, sw)"
    by (auto simp: reduce_def)
  from reduce_walk[OF assms(1) w]
  have p: "lookup_path (heap sw) (cache sw) (map weakMapKey (gd state args)) = Some leaf"
    by simp
  have p0: "lookup_path (heap s) (cache s) [] = Some (cache s)" by simp
  have "has_depth n sw"
    using reduce_from_depth[OF assms(1,2) p0, of 0 "gd state args" "gd state args" "Inr leaf" sw]
      w assms(4) by (simp add: reduce_def)
  with p assms(4) have "is_Map (heap sw leaf)"
    unfolding has_depth_def by (metis length_map)
  then obtain m r where m: "heap sw leaf = Map m r" by (cases "heap sw leaf") auto
  have "cachedSelector rt c state args s = lookup_or_compute rt c (gd state args) args leaf sw"
    using assms(3,6) w by (simp add: cachedSelector_def)
  also have "\<exists>v s1. lookup_or_compute rt c (gd state args) args leaf sw = (Inr v, s1)"
    using assms(5,8) m by (simp add: lookup_or_compute_def Let_def split: option.splits)
  finally show ?thesis .
qed

section \<open>Construction\<close>



section \<open>The check on the extra arguments\<close>

text \<open>
  C2, amended. For a cached selector whose dependents function is a function: in
  development mode with the default key derivation, a call whose extra arguments include
  an object or an array fails with \<open>CacheKeyError\<close> and leaves the cache as it was; a
  call none of whose extra arguments is an object or an array never fails with
  \<open>CacheKeyError\<close> (a function among them is not rejected); and in production mode, or
  with a key derivation of the caller, there is no such check: the call goes straight to
  the walk of the tree.
\<close>

theorem extra_argument_check:
  assumes "getDependents c = Fn gd"
  shows "(NODE_ENV rt \<noteq> ''production'' \<and> getCacheKey c = None
            \<and> (\<exists>n. JRef PlainObject n \<in> set args \<or> JRef Array n \<in> set args)
          \<longrightarrow> cachedSelector rt c state args s = (Inl CacheKeyError, s))
       \<and> ((\<forall>n. JRef PlainObject n \<notin> set args \<and> JRef Array n \<notin> set args)
          \<longrightarrow> fst (cachedSelector rt c state args s) \<noteq> Inl CacheKeyError)
       \<and> (NODE_ENV rt = ''production'' \<or> getCacheKey c \<noteq> None
          \<longrightarrow> fst (cachedSelector rt c state args s) \<noteq> Inl CacheKeyError
            \<and> cachedSelector rt c state args s
              = (case reduce (gd state args) (cache s) s of
                   (Inl e, s') \<Rightarrow> (Inl e, s')
                 | (Inr leafCache, s') \<Rightarrow> lookup_or_compute rt c (gd state args) args leafCache s'))"
proof -
  have rej: "args_rejected rt c args \<longleftrightarrow>
      NODE_ENV rt \<noteq> ''production'' \<and> getCacheKey c = None
      \<and> (\<exists>n. JRef PlainObject n \<in> set args \<or> JRef Array n \<in> set args)"
    by (auto simp: args_rejected_def list_ex_iff isObject_iff)
  have no: "\<not> args_rejected rt c args \<Longrightarrow> fst (cachedSelector rt c state args s) \<noteq> Inl CacheKeyError"
  proof
    assume n: "\<not> args_rejected rt c args" and e: "fst (cachedSelector rt c state args s) = Inl CacheKeyError"
    obtain r s1 where c: "cachedSelector rt c state args s = (r, s1)"
      by (cases "cachedSelector rt c state args s") auto
    with e have r: "r = Inl CacheKeyError" by simp
    from cachedSelector_cases[OF c] n r show False
      by (auto simp: reduce_def dest: reduce_from_error lookup_or_compute_error)
  qed
  have go: "\<not> args_rejected rt c args \<Longrightarrow> cachedSelector rt c state args s
              = (case reduce (gd state args) (cache s) s of
                   (Inl e, s') \<Rightarrow> (Inl e, s')
                 | (Inr leafCache, s') \<Rightarrow> lookup_or_compute rt c (gd state args) args leafCache s')"
    using assms by (simp add: cachedSelector_def Let_def)
  have yes: "args_rejected rt c args \<Longrightarrow> cachedSelector rt c state args s = (Inl CacheKeyError, s)"
    using assms by (simp add: cachedSelector_def)
  show ?thesis
  proof (intro conjI impI)
    assume "NODE_ENV rt \<noteq> ''production'' \<and> getCacheKey c = None
            \<and> (\<exists>n. JRef PlainObject n \<in> set args \<or> JRef Array n \<in> set args)"
    then show "cachedSelector rt c state args s = (Inl CacheKeyError, s)"
      using yes rej by simp
  next
    assume "\<forall>n. JRef PlainObject n \<notin> set args \<and> JRef Array n \<notin> set args"
    then have "\<not> args_rejected rt c args" using rej by simp
    then show "fst (cachedSelector rt c state args s) \<noteq> Inl CacheKeyError" by (rule no)
  next
    assume a: "NODE_ENV rt = ''production'' \<or> getCacheKey c \<noteq> None"
    then have n: "\<not> args_rejected rt c args" using rej by auto
    from n show "fst (cachedSelector rt c state args s) \<noteq> Inl CacheKeyError" by (rule no)
    from n show "cachedSelector rt c state args s
              = (case reduce (gd state args) (cache s) s of
                   (Inl e, s') \<Rightarrow> (Inl e, s')
                 | (Inr leafCache, s') \<Rightarrow> lookup_or_compute rt c (gd state args) args leafCache s')"
      by (rule go)
  qed
qed

theorem extra_argument_check_witness:
  "getDependents by_state = Fn (\<lambda>state args. [state])
   \<and> NODE_ENV dev_runtime \<noteq> ''production'' \<and> getCacheKey by_state = None
   \<and> JRef Array 2 \<in> set [JStr ''a'', JRef Array 2]
   \<and> cachedSelector dev_runtime by_state (JRef PlainObject 1) [JStr ''a'', JRef Array 2] start
       = (Inl CacheKeyError, start)
   \<and> NODE_ENV prod_runtime = ''production''
   \<and> fst (cachedSelector prod_runtime by_state (JRef PlainObject 1) [JStr ''a'', JRef Array 2]
        start) \<noteq> Inl CacheKeyError
   \<and> getCacheKey by_list_keyed \<noteq> None
   \<and> fst (cachedSelector dev_runtime by_list_keyed [JRef PlainObject 1] [JStr ''a'', JRef Array 2]
        start) \<noteq> Inl CacheKeyError"
proof -
  have g: "getDependents by_state = Fn (\<lambda>state args. [state])"
    and k: "getCacheKey by_state = None"
    by (simp_all add: by_state_def)
  have d: "NODE_ENV dev_runtime \<noteq> ''production''" and p: "NODE_ENV prod_runtime = ''production''"
    by (simp_all add: dev_runtime_def prod_runtime_def)
  have m: "JRef Array 2 \<in> set [JStr ''a'', JRef Array 2]" by simp
  from extra_argument_check[OF g, of dev_runtime "[JStr ''a'', JRef Array 2]"
      "JRef PlainObject 1" start] d k m
  have 1: "cachedSelector dev_runtime by_state (JRef PlainObject 1) [JStr ''a'', JRef Array 2]
      start = (Inl CacheKeyError, start)"
    by blast
  from extra_argument_check[OF g, of prod_runtime "[JStr ''a'', JRef Array 2]"
      "JRef PlainObject 1" start] p
  have 2: "fst (cachedSelector prod_runtime by_state (JRef PlainObject 1) [JStr ''a'', JRef Array 2]
        start) \<noteq> Inl CacheKeyError"
    by blast
  have g': "getDependents by_list_keyed = Fn (\<lambda>state args. state)"
    and k': "getCacheKey by_list_keyed \<noteq> None"
    by (simp_all add: by_list_keyed_def)
  from extra_argument_check[OF g', of dev_runtime "[JStr ''a'', JRef Array 2]"
      "[JRef PlainObject 1]" start] k'
  have 3: "fst (cachedSelector dev_runtime by_list_keyed [JRef PlainObject 1] [JStr ''a'', JRef Array 2]
        start) \<noteq> Inl CacheKeyError"
    by blast
  from g k d p m 1 2 k' 3 show ?thesis by blast
qed

text \<open>
  C2 as stated fails: in development mode with the default key derivation, a call whose
  extra argument is a function is not rejected, and returns a Result.
\<close>

theorem function_argument_not_rejected:
  "NODE_ENV dev_runtime \<noteq> ''production'' \<and> getCacheKey by_state = None
   \<and> is_reference (JRef Function 2) \<and> typeof (JRef Function 2) = ''function''
   \<and> cachedSelector dev_runtime by_state (JRef PlainObject 1) [JRef Function 2] start
       \<noteq> (Inl CacheKeyError, start)
   \<and> fst (cachedSelector dev_runtime by_state (JRef PlainObject 1) [JRef Function 2] start)
       = Inr [JRef PlainObject 1, JRef Function 2]"
  by (simp add: call_defs example_defs)

section \<open>Dependents that are not objects\<close>

text \<open>
  C3, amended. In every build mode, a call that passes the check of its extra arguments
  and whose dependents hold, at some position \<open>i\<close>, a value that is neither nullish nor
  a reference value fails with \<open>InvalidDependentKey\<close>. The computation function is not
  invoked and no Result is written; no path of the tree with more than \<open>i\<close> keys is
  created or changed, so nothing is stored at position \<open>i\<close> or later; every level that
  was there remains; and when \<open>i\<close> is the first such position, the levels of the
  positions before \<open>i\<close> are there after the call.
\<close>

theorem invalid_dependent_fails:
  assumes "reachable c s" and "getDependents c = Fn gd" and "\<not> args_rejected rt c args"
    and "i < length (gd state args)"
    and "not_nullish (gd state args ! i)" and "\<not> is_reference (gd state args ! i)"
  shows "fst (cachedSelector rt c state args s) = Inl InvalidDependentKey
       \<and> selector_calls (snd (cachedSelector rt c state args s)) = selector_calls s
       \<and> cache (snd (cachedSelector rt c state args s)) = cache s
       \<and> (\<forall>a. results (heap (snd (cachedSelector rt c state args s)) a) = results (heap s a))
       \<and> (\<forall>p. i < length p
            \<longrightarrow> lookup_path (heap (snd (cachedSelector rt c state args s))) (cache s) p
                = lookup_path (heap s) (cache s) p)
       \<and> (\<forall>p a. lookup_path (heap s) (cache s) p = Some a
            \<longrightarrow> lookup_path (heap (snd (cachedSelector rt c state args s))) (cache s) p = Some a)
       \<and> ((\<forall>j<i. valid_dependent (gd state args ! j))
            \<longrightarrow> lookup_path (heap (snd (cachedSelector rt c state args s))) (cache s)
                  (map weakMapKey (take i (gd state args))) \<noteq> None)"
proof -
  define D where "D = gd state args"
  note i0 = reachable_inv[OF assms(1)]
  have bad: "\<not> valid_dependent (D ! i)" using assms(5,6) by (simp add: valid_dependent_def D_def)
  have il: "i < length D" using assms(4) by (simp add: D_def)
  obtain rw sw where w: "reduce D (cache s) s = (rw, sw)"
    by (cases "reduce D (cache s) s") auto
  note W = reduce_walk[OF i0 w]
  from il have "D ! i \<in> set D" by (rule nth_mem)
  with bad have ex: "\<exists>x\<in>set D. \<not> valid_dependent x" by blast
  with W have rw: "rw = Inl InvalidDependentKey" by (cases rw) auto
  have call: "cachedSelector rt c state args s = (Inl InvalidDependentKey, sw)"
    using assms(2,3) w rw by (simp add: cachedSelector_def D_def)
  from W have g: "grows s sw" by simp
  have 1: "selector_calls sw = selector_calls s" and 2: "cache sw = cache s"
    and 3: "\<forall>a. results (heap sw a) = results (heap s a)"
    using g by (simp_all add: grows_def)
  have 4: "\<forall>p. i < length p \<longrightarrow> lookup_path (heap sw) (cache s) p = lookup_path (heap s) (cache s) p"
  proof (intro allI impI, rule ccontr)
    fix p
    assume lp: "i < length p"
      and d: "lookup_path (heap sw) (cache s) p \<noteq> lookup_path (heap s) (cache s) p"
    have p0: "lookup_path (heap s) (cache s) [] = Some (cache s)" by simp
    from w have e: "reduce_from 0 D (cache s) D s = (rw, sw)" by (simp add: reduce_def)
    from reduce_from_paths[OF i0 p0 e d] obtain j where
      j: "j \<le> length D" "p = map weakMapKey (take j D)" "\<forall>x\<in>set (take j D). valid_dependent x"
      by auto
    from j(1,2) lp have "i < j" by simp
    with il have "D ! i \<in> set (take j D)"
      by (metis in_set_conv_nth length_take min_less_iff_conj nth_take)
    with j(3) bad show False by blast
  qed
  have 5: "\<forall>p a. lookup_path (heap s) (cache s) p = Some a
            \<longrightarrow> lookup_path (heap sw) (cache s) p = Some a"
    using grows_lookup[OF g] by blast
  have 6: "lookup_path (heap sw) (cache s) (map weakMapKey (take i D)) \<noteq> None"
    if v: "\<forall>j<i. valid_dependent (D ! j)"
  proof -
    have vt: "\<forall>x\<in>set (take i D). valid_dependent x"
      using v il by (auto simp: in_set_conv_nth)
    have root: "cache s < next_addr s" using i0 by (simp add: inv_def)
    from reduce_from_valid[OF i0 root vt, of 0 D] obtain b sm where
      m: "reduce_from 0 D (cache s) (take i D) s = (Inr b, sm)" by blast
    note M = reduce_from_walk[OF i0 root m]
    have split: "D = take i D @ D ! i # drop (Suc i) D"
      using il by (simp add: id_take_nth_drop)
    have "reduce_from 0 D (cache s) D s
        = reduce_from (0 + length (take i D)) D b (D ! i # drop (Suc i) D) sm"
      using reduce_from_append[of 0 D "cache s" "take i D" "D ! i # drop (Suc i) D" s] m split
      by simp
    also have "\<dots> = (Inl InvalidDependentKey, sm)"
      by (simp add: insert_invalid[OF bad])
    finally have "sw = sm" using w by (simp add: reduce_def)
    with M show ?thesis by simp
  qed
  from call 1 2 3 4 5 6 show ?thesis
    unfolding D_def by simp
qed

theorem invalid_dependent_fails_witness:
  "reachable by_list start \<and> getDependents by_list = Fn (\<lambda>state args. state)
   \<and> \<not> args_rejected prod_runtime by_list [JStr ''x'']
   \<and> not_nullish ([JRef PlainObject 1, JNum 5, JRef PlainObject 2] ! 1)
   \<and> \<not> is_reference ([JRef PlainObject 1, JNum 5, JRef PlainObject 2] ! 1)
   \<and> fst (cachedSelector prod_runtime by_list [JRef PlainObject 1, JNum 5, JRef PlainObject 2]
        [JStr ''x''] start) = Inl InvalidDependentKey
   \<and> selector_calls (snd (cachedSelector prod_runtime by_list
        [JRef PlainObject 1, JNum 5, JRef PlainObject 2] [JStr ''x''] start)) = selector_calls start
   \<and> lookup_path (heap (snd (cachedSelector prod_runtime by_list
        [JRef PlainObject 1, JNum 5, JRef PlainObject 2] [JStr ''x''] start))) (cache start)
        [Key (JRef PlainObject 1), Key (JNum 5)]
       = lookup_path (heap start) (cache start) [Key (JRef PlainObject 1), Key (JNum 5)]
   \<and> lookup_path (heap (snd (cachedSelector prod_runtime by_list
        [JRef PlainObject 1, JNum 5, JRef PlainObject 2] [JStr ''x''] start))) (cache start)
        (map weakMapKey (take 1 [JRef PlainObject 1, JNum 5, JRef PlainObject 2])) \<noteq> None"
proof -
  have r: "reachable by_list start"
    unfolding by_list_def by (rule reachable_initial)
  have g: "getDependents by_list = Fn (\<lambda>state args. state)"
    by (simp add: by_list_def)
  have n: "\<not> args_rejected prod_runtime by_list [JStr ''x'']"
    by (simp add: call_defs example_defs)
  have l: "1 < length [JRef PlainObject 1, JNum 5, JRef PlainObject 2]" by simp
  have a: "not_nullish ([JRef PlainObject 1, JNum 5, JRef PlainObject 2] ! 1)"
    and b: "\<not> is_reference ([JRef PlainObject 1, JNum 5, JRef PlainObject 2] ! 1)"
    by simp_all
  have v: "\<forall>j<1. valid_dependent ([JRef PlainObject 1, JNum 5, JRef PlainObject 2] ! j)"
    by (simp add: valid_dependent_def)
  have lp: "1 < length [Key (JRef PlainObject 1), Key (JNum 5)]" by simp
  note T = invalid_dependent_fails[OF r g, where rt = prod_runtime and args = "[JStr ''x'']"
      and state = "[JRef PlainObject 1, JNum 5, JRef PlainObject 2]" and i = 1, OF n l a b]
  from T have A: "fst (cachedSelector prod_runtime by_list [JRef PlainObject 1, JNum 5, JRef PlainObject 2]
        [JStr ''x''] start) = Inl InvalidDependentKey"
    and B: "selector_calls (snd (cachedSelector prod_runtime by_list
        [JRef PlainObject 1, JNum 5, JRef PlainObject 2] [JStr ''x''] start)) = selector_calls start"
    by blast+
  from T lp have C: "lookup_path (heap (snd (cachedSelector prod_runtime by_list
        [JRef PlainObject 1, JNum 5, JRef PlainObject 2] [JStr ''x''] start))) (cache start)
        [Key (JRef PlainObject 1), Key (JNum 5)]
       = lookup_path (heap start) (cache start) [Key (JRef PlainObject 1), Key (JNum 5)]"
    by blast
  from T v have D: "lookup_path (heap (snd (cachedSelector prod_runtime by_list
        [JRef PlainObject 1, JNum 5, JRef PlainObject 2] [JStr ''x''] start))) (cache start)
        (map weakMapKey (take 1 [JRef PlainObject 1, JNum 5, JRef PlainObject 2])) \<noteq> None"
    by blast
  from r g n a b A B C D show ?thesis by blast
qed

text \<open>
  C3 as stated fails: in development mode with the default key derivation, a call whose
  dependents hold the number 5 and whose extra argument is an object fails with
  \<open>CacheKeyError\<close>, not with \<open>InvalidDependentKey\<close>.
\<close>

theorem object_argument_checked_before_dependents:
  "not_nullish ([JNum 5] ! 0) \<and> \<not> is_reference ([JNum 5] ! 0)
   \<and> cachedSelector dev_runtime by_list [JNum 5] [JRef PlainObject 1] start
       = (Inl CacheKeyError, start)
   \<and> fst (cachedSelector dev_runtime by_list [JNum 5] [JRef PlainObject 1] start)
       \<noteq> Inl InvalidDependentKey"
  by (simp add: call_defs example_defs)

section \<open>Memoization\<close>

text \<open>
  C1, amended. For every cached selector, in every state it can reach, and every pair of
  calls with the same sequence of dependents and the same leaf key string, the second of
  which passes the development check of its extra arguments: if the first call returns
  a Result, the second call returns the same Result and leaves the state as it is, so
  that the computation function is invoked at most once across the two calls, and not in
  the second. And the first call does return a Result when the dependents function
  returns sequences of one length, at least one, the dependents of the call are objects
  or nullish, the call passes the development check, its key derivation yields a string
  and the computation function is a function.
\<close>

theorem repeated_call_returns_stored_result:
  assumes "reachable c s" and "getDependents c = Fn gd"
    and "gd state2 args2 = gd state args"
    and "cache_key rt2 c args2 = cache_key rt c args"
    and "\<not> args_rejected rt2 c args2"
  shows "(\<forall>v s1. cachedSelector rt c state args s = (Inr v, s1)
            \<longrightarrow> cachedSelector rt2 c state2 args2 s1 = (Inr v, s1)
              \<and> selector_calls (snd (cachedSelector rt2 c state2 args2 s1))
                  \<le> Suc (selector_calls s))
       \<and> ((\<exists>n>0. \<forall>state args. length (gd state args) = n) \<and> (\<exists>sel. selector c = Fn sel)
            \<and> \<not> args_rejected rt c args \<and> (\<forall>x\<in>set (gd state args). valid_dependent x)
            \<and> (\<exists>k. cache_key rt c args = Inr k)
          \<longrightarrow> (\<exists>v s1. cachedSelector rt c state args s = (Inr v, s1)))"
proof -
  note i = reachable_inv[OF assms(1)]
  have d: "list_all2 same_dependent (gd state args) (gd state2 args2)"
    using assms(3) by (simp add: same_dependent_refl)
  have 1: "cachedSelector rt2 c state2 args2 s1 = (Inr v, s1)
        \<and> selector_calls (snd (cachedSelector rt2 c state2 args2 s1)) \<le> Suc (selector_calls s)"
    if c: "cachedSelector rt c state args s = (Inr v, s1)" for v s1
    using second_call_hits[OF i c assms(2) d assms(4,5)] by simp
  have 2: "\<exists>v s1. cachedSelector rt c state args s = (Inr v, s1)"
    if h: "(\<exists>n>0. \<forall>state args. length (gd state args) = n) \<and> (\<exists>sel. selector c = Fn sel)
            \<and> \<not> args_rejected rt c args \<and> (\<forall>x\<in>set (gd state args). valid_dependent x)
            \<and> (\<exists>k. cache_key rt c args = Inr k)"
  proof -
    from h obtain n sel k where n: "0 < n" "\<forall>state args. length (gd state args) = n"
      and sel: "selector c = Fn sel" and r: "\<not> args_rejected rt c args"
      and v: "\<forall>x\<in>set (gd state args). valid_dependent x" and k: "cache_key rt c args = Inr k"
      by blast
    from n(2) have l: "length (gd state args) = n" by simp
    from call_returns[OF i reachable_has_depth[OF assms(1,2) n(2,1)] assms(2) l sel r v k]
    show ?thesis .
  qed
  from 1 2 show ?thesis by blast
qed

theorem repeated_call_returns_stored_result_witness:
  "reachable by_state start
   \<and> getDependents by_state = Fn (\<lambda>state args. [state])
   \<and> cache_key dev_runtime by_state [JStr ''a,2'']
       = cache_key dev_runtime by_state [JStr ''a'', JNum 2]
   \<and> \<not> args_rejected dev_runtime by_state [JStr ''a,2'']
   \<and> fst (cachedSelector dev_runtime by_state (JRef PlainObject 1) [JStr ''a'', JNum 2] start)
       = Inr [JRef PlainObject 1, JStr ''a'', JNum 2]
   \<and> cachedSelector dev_runtime by_state (JRef PlainObject 1) [JStr ''a,2'']
        (snd (cachedSelector dev_runtime by_state (JRef PlainObject 1) [JStr ''a'', JNum 2] start))
       = (Inr [JRef PlainObject 1, JStr ''a'', JNum 2],
          snd (cachedSelector dev_runtime by_state (JRef PlainObject 1) [JStr ''a'', JNum 2] start))
   \<and> selector_calls (snd (cachedSelector dev_runtime by_state (JRef PlainObject 1) [JStr ''a,2'']
        (snd (cachedSelector dev_runtime by_state (JRef PlainObject 1) [JStr ''a'', JNum 2] start))))
       \<le> Suc (selector_calls start)"
proof -
  define s1 where "s1 = snd (cachedSelector dev_runtime by_state (JRef PlainObject 1) [JStr ''a'', JNum 2] start)"
  have r: "reachable by_state start"
    unfolding by_state_def by (rule reachable_initial)
  have g: "getDependents by_state = Fn (\<lambda>state args. [state])"
    and f: "selector by_state = Fn (\<lambda>dependents args. dependents @ args)"
    by (simp_all add: by_state_def)
  have k: "cache_key dev_runtime by_state [JStr ''a,2'']
       = cache_key dev_runtime by_state [JStr ''a'', JNum 2]"
    and k0: "cache_key dev_runtime by_state [JStr ''a'', JNum 2] = Inr ''a,2''"
    by (simp_all add: call_defs example_defs string_of_int_def digit_def)
  have n: "\<not> args_rejected dev_runtime by_state [JStr ''a,2'']"
    and n0: "\<not> args_rejected dev_runtime by_state [JStr ''a'', JNum 2]"
    by (simp_all add: call_defs example_defs)
  have len: "\<exists>n>0. \<forall>(state::jsval) (args::jsval list). length [state] = n"
    by (intro exI[of _ 1]) simp
  have v: "\<forall>x\<in>set [JRef PlainObject 1]. valid_dependent x"
    by (simp add: valid_dependent_def)
  note T = repeated_call_returns_stored_result[where c = by_state
      and gd = "\<lambda>state args. [state]" and s = start
      and state = "JRef PlainObject 1" and ?state2.0 = "JRef PlainObject 1"
      and rt = dev_runtime and ?rt2.0 = dev_runtime
      and args = "[JStr ''a'', JNum 2]" and ?args2.0 = "[JStr ''a,2'']", OF r g refl k n]
  from T len f n0 v k0 obtain w s' where
    c: "cachedSelector dev_runtime by_state (JRef PlainObject 1) [JStr ''a'', JNum 2] start = (Inr w, s')"
    by blast
  then have s': "s' = s1" by (simp add: s1_def)
  have A: "fst (cachedSelector dev_runtime by_state (JRef PlainObject 1) [JStr ''a'', JNum 2] start)
      = Inr [JRef PlainObject 1, JStr ''a'', JNum 2]"
    by (simp add: call_defs example_defs)
  with c have w: "w = [JRef PlainObject 1, JStr ''a'', JNum 2]" by simp
  from T c have "cachedSelector dev_runtime by_state (JRef PlainObject 1) [JStr ''a,2''] s' = (Inr w, s')
      \<and> selector_calls (snd (cachedSelector dev_runtime by_state (JRef PlainObject 1) [JStr ''a,2''] s'))
          \<le> Suc (selector_calls start)"
    by blast
  then have B: "cachedSelector dev_runtime by_state (JRef PlainObject 1) [JStr ''a,2''] s1
      = (Inr [JRef PlainObject 1, JStr ''a'', JNum 2], s1)"
    and C: "selector_calls (snd (cachedSelector dev_runtime by_state (JRef PlainObject 1) [JStr ''a,2''] s1))
          \<le> Suc (selector_calls start)"
    unfolding s' w by blast+
  from r g k n A B C show ?thesis
    unfolding s1_def by blast
qed

text \<open>
  C1 as stated fails. A cached selector whose dependents sequence is empty invokes the
  computation function in both of two identical calls and returns a Result in neither;
  and a second call whose extra argument is an array that joins to the same key as the
  first call's string is rejected in development mode.
\<close>

theorem empty_dependents_recompute:
  "treeSelect dev_runtime (getDependents by_list) (selector by_list) None
     = Inr (by_list, start)
   \<and> cache_key dev_runtime by_list [JStr ''a''] = Inr ''a''
   \<and> fst (cachedSelector dev_runtime by_list [] [JStr ''a''] start) = Inl InvalidWeakMapKey
   \<and> fst (cachedSelector dev_runtime by_list [] [JStr ''a'']
        (snd (cachedSelector dev_runtime by_list [] [JStr ''a''] start)))
       = Inl InvalidWeakMapKey
   \<and> selector_calls (snd (cachedSelector dev_runtime by_list [] [JStr ''a'']
        (snd (cachedSelector dev_runtime by_list [] [JStr ''a''] start)))) = 2
   \<and> cache_key dev_runtime by_list [JRef Array 5] = cache_key dev_runtime by_list [JStr []]
   \<and> fst (cachedSelector dev_runtime by_list [JNull] [JStr []] start) = Inr [JNull, JStr []]
   \<and> fst (cachedSelector dev_runtime by_list [JNull] [JRef Array 5]
        (snd (cachedSelector dev_runtime by_list [JNull] [JStr []] start)))
       = Inl CacheKeyError"
  by (simp add: call_defs example_defs treeSelect_def)

section \<open>Nullish dependents\<close>

text \<open>
  C4. A dependent that is \<open>null\<close> and one that is \<open>undefined\<close> are both replaced by
  the one object \<open>NULLISH_KEY\<close>. So two calls with the same extra arguments whose
  dependents agree at every position, or are both nullish there, walk to the same leaf
  map and leave the same tree; and when the first returns a Result, the second returns
  that Result from the cache.
\<close>

theorem null_and_undefined_share_branch:
  assumes "reachable c s" and "getDependents c = Fn gd"
    and "list_all2 same_dependent (gd state args) (gd state2 args)"
  shows "weakMapKey JNull = NULLISH_KEY \<and> weakMapKey JUndefined = NULLISH_KEY
       \<and> reduce (gd state args) (cache s) s = reduce (gd state2 args) (cache s) s
       \<and> (\<forall>v s1. cachedSelector rt c state args s = (Inr v, s1)
            \<longrightarrow> cachedSelector rt c state2 args s1 = (Inr v, s1))"
proof -
  have 1: "weakMapKey JNull = NULLISH_KEY \<and> weakMapKey JUndefined = NULLISH_KEY"
    by (simp add: weakMapKey_def)
  have 2: "reduce (gd state args) (cache s) s = reduce (gd state2 args) (cache s) s"
    using assms(3) by (rule reduce_same)
  have 3: "cachedSelector rt c state2 args s1 = (Inr v, s1)"
    if c: "cachedSelector rt c state args s = (Inr v, s1)" for v s1
  proof -
    from call_stores[OF reachable_inv[OF assms(1)] c assms(2)]
    have n: "\<not> args_rejected rt c args" by blast
    from second_call_hits[OF reachable_inv[OF assms(1)] c assms(2,3) refl n]
    show ?thesis by simp
  qed
  from 1 2 3 show ?thesis by blast
qed

theorem null_and_undefined_share_branch_witness:
  "reachable by_list start
   \<and> getDependents by_list = Fn (\<lambda>state args. state)
   \<and> list_all2 same_dependent [JRef PlainObject 1, JNull] [JRef PlainObject 1, JUndefined]
   \<and> reduce [JRef PlainObject 1, JNull] (cache start) start
       = reduce [JRef PlainObject 1, JUndefined] (cache start) start
   \<and> fst (cachedSelector dev_runtime by_list [JRef PlainObject 1, JNull] [JStr ''a''] start)
       = Inr [JRef PlainObject 1, JNull, JStr ''a'']
   \<and> fst (cachedSelector dev_runtime by_list [JRef PlainObject 1, JUndefined] [JStr ''a'']
        (snd (cachedSelector dev_runtime by_list [JRef PlainObject 1, JNull] [JStr ''a''] start)))
       = Inr [JRef PlainObject 1, JNull, JStr ''a'']"
proof -
  have r: "reachable by_list start"
    unfolding by_list_def by (rule reachable_initial)
  have g: "getDependents by_list = Fn (\<lambda>state args. state)"
    by (simp add: by_list_def)
  have d: "list_all2 same_dependent [JRef PlainObject 1, JNull] [JRef PlainObject 1, JUndefined]"
    by (simp add: same_dependent_def)
  have f: "fst (cachedSelector dev_runtime by_list [JRef PlainObject 1, JNull] [JStr ''a''] start)
       = Inr [JRef PlainObject 1, JNull, JStr ''a'']"
    by (simp add: call_defs example_defs)
  then have c: "cachedSelector dev_runtime by_list [JRef PlainObject 1, JNull] [JStr ''a''] start
       = (Inr [JRef PlainObject 1, JNull, JStr ''a''],
          snd (cachedSelector dev_runtime by_list [JRef PlainObject 1, JNull] [JStr ''a''] start))"
    by (simp add: prod_eq_iff)
  note T = null_and_undefined_share_branch[OF r g, where state = "[JRef PlainObject 1, JNull]"
      and args = "[JStr ''a'']" and ?state2.0 = "[JRef PlainObject 1, JUndefined]"
      and rt = dev_runtime, OF d]
  from T have e: "reduce [JRef PlainObject 1, JNull] (cache start) start
       = reduce [JRef PlainObject 1, JUndefined] (cache start) start"
    by blast
  from T c have "cachedSelector dev_runtime by_list [JRef PlainObject 1, JUndefined] [JStr ''a'']
        (snd (cachedSelector dev_runtime by_list [JRef PlainObject 1, JNull] [JStr ''a''] start))
      = (Inr [JRef PlainObject 1, JNull, JStr ''a''],
          snd (cachedSelector dev_runtime by_list [JRef PlainObject 1, JNull] [JStr ''a''] start))"
    by blast
  then have h: "fst (cachedSelector dev_runtime by_list [JRef PlainObject 1, JUndefined] [JStr ''a'']
        (snd (cachedSelector dev_runtime by_list [JRef PlainObject 1, JNull] [JStr ''a''] start)))
       = Inr [JRef PlainObject 1, JNull, JStr ''a'']"
    by simp
  from r g d e f h show ?thesis by blast
qed

section \<open>The default key derivation\<close>

text \<open>
  C7, amended. The default key derivation joins the stringified extra arguments with a
  comma: the key of a single string is the string, and the key of two sequences put end
  to end is the two keys with a comma between. Consequently, for a cached selector with
  the default derivation and every pair of calls with the same sequence of dependents
  whose extra arguments derive the same key: if the first call returns a Result, and the
  second call is in production mode or none of its extra arguments is an object or an
  array, the second call returns the first call's Result and does not invoke the
  computation function.
\<close>

theorem default_key_collision_returns_cached_result:
  assumes "reachable c s" and "getDependents c = Fn gd" and "getCacheKey c = None"
    and "cachedSelector rt c state args s = (Inr v, s1)"
    and "gd state2 args2 = gd state args"
    and "defaultGetCacheKey rt args2 = defaultGetCacheKey rt args"
    and "NODE_ENV rt = ''production'' \<or> \<not> list_ex isObject args2"
  shows "cachedSelector rt c state2 args2 s1 = (Inr v, s1)
       \<and> (\<forall>str. defaultGetCacheKey rt [JStr str] = Inr str)
       \<and> (\<forall>xs ys a b. xs \<noteq> [] \<and> ys \<noteq> [] \<and> defaultGetCacheKey rt xs = Inr a
              \<and> defaultGetCacheKey rt ys = Inr b
            \<longrightarrow> defaultGetCacheKey rt (xs @ ys) = Inr (a @ '','' @ b))"
proof -
  have d: "list_all2 same_dependent (gd state args) (gd state2 args2)"
    using assms(5) by (simp add: same_dependent_refl)
  have k: "cache_key rt c args2 = cache_key rt c args"
    using assms(3,6) by (simp add: cache_key_def)
  have n: "\<not> args_rejected rt c args2"
    using assms(7) by (auto simp: args_rejected_def)
  from second_call_hits[OF reachable_inv[OF assms(1)] assms(4,2) d k n]
  have 1: "cachedSelector rt c state2 args2 s1 = (Inr v, s1)" by simp
  have 2: "\<forall>str. defaultGetCacheKey rt [JStr str] = Inr str"
    by (simp add: defaultGetCacheKey_def)
  have 3: "\<forall>xs ys a b. xs \<noteq> [] \<and> ys \<noteq> [] \<and> defaultGetCacheKey rt xs = Inr a
              \<and> defaultGetCacheKey rt ys = Inr b
            \<longrightarrow> defaultGetCacheKey rt (xs @ ys) = Inr (a @ '','' @ b)"
    by (simp add: defaultGetCacheKey_def join_append)
  from 1 2 3 show ?thesis by blast
qed

theorem default_key_collision_returns_cached_result_witness:
  "reachable by_state start
   \<and> getDependents by_state = Fn (\<lambda>state args. [state]) \<and> getCacheKey by_state = None
   \<and> fst (cachedSelector dev_runtime by_state (JRef PlainObject 1) [JStr ''a'', JStr ''b''] start)
       = Inr [JRef PlainObject 1, JStr ''a'', JStr ''b'']
   \<and> defaultGetCacheKey dev_runtime [JStr ''a,b''] = defaultGetCacheKey dev_runtime [JStr ''a'', JStr ''b'']
   \<and> \<not> list_ex isObject [JStr ''a,b'']
   \<and> cachedSelector dev_runtime by_state (JRef PlainObject 1) [JStr ''a,b'']
        (snd (cachedSelector dev_runtime by_state (JRef PlainObject 1) [JStr ''a'', JStr ''b''] start))
       = (Inr [JRef PlainObject 1, JStr ''a'', JStr ''b''],
          snd (cachedSelector dev_runtime by_state (JRef PlainObject 1) [JStr ''a'', JStr ''b''] start))
   \<and> defaultGetCacheKey dev_runtime ([JStr ''a''] @ [JStr ''b'']) = Inr (''a'' @ '','' @ ''b'')"
proof -
  have r: "reachable by_state start"
    unfolding by_state_def by (rule reachable_initial)
  have g: "getDependents by_state = Fn (\<lambda>state args. [state])" and o: "getCacheKey by_state = None"
    by (simp_all add: by_state_def)
  have f: "fst (cachedSelector dev_runtime by_state (JRef PlainObject 1) [JStr ''a'', JStr ''b''] start)
      = Inr [JRef PlainObject 1, JStr ''a'', JStr ''b'']"
    by (simp add: call_defs example_defs)
  then have c: "cachedSelector dev_runtime by_state (JRef PlainObject 1) [JStr ''a'', JStr ''b''] start
       = (Inr [JRef PlainObject 1, JStr ''a'', JStr ''b''],
          snd (cachedSelector dev_runtime by_state (JRef PlainObject 1) [JStr ''a'', JStr ''b''] start))"
    by (simp add: prod_eq_iff)
  have k: "defaultGetCacheKey dev_runtime [JStr ''a,b''] = defaultGetCacheKey dev_runtime [JStr ''a'', JStr ''b'']"
    by (simp add: defaultGetCacheKey_def)
  have n: "\<not> list_ex isObject [JStr ''a,b'']"
    by (simp add: isObject_def)
  have n': "NODE_ENV dev_runtime = ''production'' \<or> \<not> list_ex isObject [JStr ''a,b'']"
    using n by simp
  note T = default_key_collision_returns_cached_result[OF r g o c _ k n',
      where ?state2.0 = "JRef PlainObject 1"]
  have A: "cachedSelector dev_runtime by_state (JRef PlainObject 1) [JStr ''a,b'']
        (snd (cachedSelector dev_runtime by_state (JRef PlainObject 1) [JStr ''a'', JStr ''b''] start))
       = (Inr [JRef PlainObject 1, JStr ''a'', JStr ''b''],
          snd (cachedSelector dev_runtime by_state (JRef PlainObject 1) [JStr ''a'', JStr ''b''] start))"
    using T by blast
  have "defaultGetCacheKey dev_runtime [JStr ''a''] = Inr ''a''"
    "defaultGetCacheKey dev_runtime [JStr ''b''] = Inr ''b''"
    using T by blast+
  with T have B: "defaultGetCacheKey dev_runtime ([JStr ''a''] @ [JStr ''b'']) = Inr (''a'' @ '','' @ ''b'')"
    by blast
  from r g o f k n A B show ?thesis by blast
qed

text \<open>
  C7 as stated fails: in development mode, a second call whose extra argument is an
  object that joins to the key of the first call's string does not return the cached
  Result; it is rejected.
\<close>

theorem colliding_object_argument_rejected:
  "getCacheKey by_state = None
   \<and> defaultGetCacheKey dev_runtime [JRef PlainObject 3]
       = defaultGetCacheKey dev_runtime [JStr ''[object Object]'']
   \<and> fst (cachedSelector dev_runtime by_state (JRef PlainObject 1) [JStr ''[object Object]''] start)
       = Inr [JRef PlainObject 1, JStr ''[object Object]'']
   \<and> fst (cachedSelector dev_runtime by_state (JRef PlainObject 1) [JRef PlainObject 3]
        (snd (cachedSelector dev_runtime by_state (JRef PlainObject 1) [JStr ''[object Object]''] start)))
       = Inl CacheKeyError"
  by (simp add: call_defs example_defs)

section \<open>Isolation of the branches\<close>

text \<open>
  C8. Take two calls, one after the other, whose dependents differ by object identity
  at some position: the two values there are not the same, and at least one of them is
  an object (so they are two different objects, or an object and a value that is not
  that object). Let the first call pass the check of its extra arguments and both walks
  reach a leaf map. Then the keys of the two values differ and the two walks end at
  different leaf maps. The first call leaves what is stored for the second call's
  dependents as it was, under every leaf key; and when nothing was stored there for the
  second call's key, a second call that returns a Result has computed it.
\<close>

theorem distinct_dependents_distinct_leaves:
  assumes "reachable c s" and "getDependents c = Fn gd"
    and "i < length (gd state args)" and "i < length (gd state2 args2)"
    and "gd state args ! i \<noteq> gd state2 args2 ! i"
    and "is_reference (gd state args ! i) \<or> is_reference (gd state2 args2 ! i)"
    and "\<not> args_rejected rt c args"
    and "reduce (gd state args) (cache s) s = (Inr leaf, sw)"
    and "cachedSelector rt c state args s = (r, s1)"
    and "reduce (gd state2 args2) (cache s1) s1 = (Inr leaf2, sw2)"
  shows "weakMapKey (gd state args ! i) \<noteq> weakMapKey (gd state2 args2 ! i)
       \<and> map weakMapKey (gd state args) \<noteq> map weakMapKey (gd state2 args2)
       \<and> leaf \<noteq> leaf2
       \<and> (\<forall>k. cached_result s1 (map weakMapKey (gd state2 args2)) k
              = cached_result s (map weakMapKey (gd state2 args2)) k)
       \<and> (\<forall>k v s2. cache_key rt2 c args2 = Inr k
              \<and> cached_result s (map weakMapKey (gd state2 args2)) k = None
              \<and> cachedSelector rt2 c state2 args2 s1 = (Inr v, s2)
            \<longrightarrow> selector_calls s2 = Suc (selector_calls s1))"
proof -
  note i0 = reachable_inv[OF assms(1)]
  have 0: "weakMapKey (gd state args ! i) \<noteq> weakMapKey (gd state2 args2 ! i)"
    using assms(5,6) by (rule weakMapKey_differs)
  have ne': "map weakMapKey (gd state args) \<noteq> map weakMapKey (gd state2 args2)"
    using assms(3,4) 0 by (rule differ_at_position)
  then have ne: "map weakMapKey (gd state2 args2) \<noteq> map weakMapKey (gd state args)"
    by (simp add: eq_commute)
  have l: "lookup_or_compute rt c (gd state args) args leaf sw = (r, s1)"
    using assms(2,7,8,9) by (simp add: cachedSelector_def)
  from reduce_walk[OF i0 assms(8)]
  have p1: "lookup_path (heap sw) (cache sw) (map weakMapKey (gd state args)) = Some leaf"
    by simp
  note F = lookup_or_compute_frame[OF l]
  have "lookup_path (heap s1) (cache s1) (map weakMapKey (gd state args))
      = lookup_path (heap sw) (cache sw) (map weakMapKey (gd state args))"
    using F lookup_path_cong[of "heap s1" "heap sw" "cache sw"] by simp
  with p1 have p1': "lookup_path (heap s1) (cache s1) (map weakMapKey (gd state args)) = Some leaf"
    by simp
  have i1: "inv c s1" using cachedSelector_inv[OF i0, of rt state args] assms(9) by simp
  from reduce_walk[OF i1 assms(10)] have i2: "inv c sw2" and g2: "grows s1 sw2"
    and p2: "lookup_path (heap sw2) (cache sw2) (map weakMapKey (gd state2 args2)) = Some leaf2"
    by auto
  from g2 have c2: "cache sw2 = cache s1" by (simp add: grows_def)
  from grows_lookup[OF g2 p1'] c2
  have p12: "lookup_path (heap sw2) (cache sw2) (map weakMapKey (gd state args)) = Some leaf"
    by simp
  have 1: "leaf \<noteq> leaf2"
  proof
    assume "leaf = leaf2"
    with p2 p12 have "map weakMapKey (gd state2 args2) = map weakMapKey (gd state args)"
      by (intro inv_path_inj[OF i2, of _ leaf]) simp_all
    with ne show False by simp
  qed
  have 2: "\<forall>k. cached_result s1 (map weakMapKey (gd state2 args2)) k
              = cached_result s (map weakMapKey (gd state2 args2)) k"
    using call_cached_result_frame[OF i0 assms(2,9) ne] by simp
  have 3: "\<forall>k v s2. cache_key rt2 c args2 = Inr k
              \<and> cached_result s (map weakMapKey (gd state2 args2)) k = None
              \<and> cachedSelector rt2 c state2 args2 s1 = (Inr v, s2)
            \<longrightarrow> selector_calls s2 = Suc (selector_calls s1)"
  proof (intro allI impI, elim conjE)
    fix k v s2
    assume k: "cache_key rt2 c args2 = Inr k"
      and n: "cached_result s (map weakMapKey (gd state2 args2)) k = None"
      and c: "cachedSelector rt2 c state2 args2 s1 = (Inr v, s2)"
    from n 2 have "cached_result s1 (map weakMapKey (gd state2 args2)) k = None" by simp
    from call_miss[OF i1 assms(2) c k this] show "selector_calls s2 = Suc (selector_calls s1)"
      by simp
  qed
  from 0 ne' 1 2 3 show ?thesis by blast
qed

theorem distinct_dependents_distinct_leaves_witness:
  "reachable by_list start \<and> getDependents by_list = Fn (\<lambda>state args. state)
   \<and> [JRef PlainObject 1] ! 0 \<noteq> [JRef PlainObject 4] ! 0
   \<and> is_reference ([JRef PlainObject 1] ! 0)
   \<and> weakMapKey ([JRef PlainObject 1] ! 0) \<noteq> weakMapKey ([JRef PlainObject 4] ! 0)
   \<and> \<not> args_rejected dev_runtime by_list [JStr ''x'']
   \<and> fst (reduce [JRef PlainObject 1] (cache start) start) = Inr 1
   \<and> fst (cachedSelector dev_runtime by_list [JRef PlainObject 1] [JStr ''x''] start)
       = Inr [JRef PlainObject 1, JStr ''x'']
   \<and> fst (reduce [JRef PlainObject 4]
          (cache (snd (cachedSelector dev_runtime by_list [JRef PlainObject 1] [JStr ''x''] start)))
          (snd (cachedSelector dev_runtime by_list [JRef PlainObject 1] [JStr ''x''] start))) = Inr 2
   \<and> (1 :: addr) \<noteq> 2
   \<and> cached_result (snd (cachedSelector dev_runtime by_list [JRef PlainObject 1] [JStr ''x''] start))
        (map weakMapKey [JRef PlainObject 4]) ''x''
       = cached_result start (map weakMapKey [JRef PlainObject 4]) ''x''
   \<and> cached_result start (map weakMapKey [JRef PlainObject 4]) ''x'' = None
   \<and> fst (cachedSelector dev_runtime by_list [JRef PlainObject 4] [JStr ''x'']
        (snd (cachedSelector dev_runtime by_list [JRef PlainObject 1] [JStr ''x''] start)))
       = Inr [JRef PlainObject 4, JStr ''x'']
   \<and> selector_calls (snd (cachedSelector dev_runtime by_list [JRef PlainObject 4] [JStr ''x'']
        (snd (cachedSelector dev_runtime by_list [JRef PlainObject 1] [JStr ''x''] start))))
       = Suc (selector_calls (snd (cachedSelector dev_runtime by_list [JRef PlainObject 1] [JStr ''x''] start)))"
proof -
  define s1 where "s1 = snd (cachedSelector dev_runtime by_list [JRef PlainObject 1] [JStr ''x''] start)"
  define s2 where "s2 = snd (cachedSelector dev_runtime by_list [JRef PlainObject 4] [JStr ''x''] s1)"
  have r: "reachable by_list start"
    unfolding by_list_def by (rule reachable_initial)
  have g: "getDependents by_list = Fn (\<lambda>state args. state)"
    by (simp add: by_list_def)
  have l1: "0 < length [JRef PlainObject 1]" and l2: "0 < length [JRef PlainObject 4]"
    by simp_all
  have d: "[JRef PlainObject 1] ! 0 \<noteq> [JRef PlainObject 4] ! 0"
    and o: "is_reference ([JRef PlainObject 1] ! 0)"
    by simp_all
  then have o': "is_reference ([JRef PlainObject 1] ! 0) \<or> is_reference ([JRef PlainObject 4] ! 0)"
    by simp
  have n: "\<not> args_rejected dev_runtime by_list [JStr ''x'']"
    and k: "cache_key dev_runtime by_list [JStr ''x''] = Inr ''x''"
    by (simp_all add: call_defs example_defs)
  have w1: "fst (reduce [JRef PlainObject 1] (cache start) start) = Inr 1"
    by (simp add: call_defs)
  then have w1': "reduce [JRef PlainObject 1] (cache start) start
      = (Inr 1, snd (reduce [JRef PlainObject 1] (cache start) start))"
    by (simp add: prod_eq_iff)
  have c1: "fst (cachedSelector dev_runtime by_list [JRef PlainObject 1] [JStr ''x''] start)
      = Inr [JRef PlainObject 1, JStr ''x'']"
    by (simp add: call_defs example_defs)
  have c1': "cachedSelector dev_runtime by_list [JRef PlainObject 1] [JStr ''x''] start
      = (fst (cachedSelector dev_runtime by_list [JRef PlainObject 1] [JStr ''x''] start), s1)"
    by (simp add: s1_def)
  have w2: "fst (reduce [JRef PlainObject 4] (cache s1) s1) = Inr 2"
    unfolding s1_def by (simp add: call_defs example_defs)
  then have w2': "reduce [JRef PlainObject 4] (cache s1) s1
      = (Inr 2, snd (reduce [JRef PlainObject 4] (cache s1) s1))"
    by (simp add: prod_eq_iff)
  have e: "cached_result start (map weakMapKey [JRef PlainObject 4]) ''x'' = None"
    by (simp add: cached_result_def weakMapKey_def initial_state_def)
  have c2: "fst (cachedSelector dev_runtime by_list [JRef PlainObject 4] [JStr ''x''] s1)
      = Inr [JRef PlainObject 4, JStr ''x'']"
    unfolding s1_def by (simp add: call_defs example_defs)
  then have c2': "cachedSelector dev_runtime by_list [JRef PlainObject 4] [JStr ''x''] s1
      = (Inr [JRef PlainObject 4, JStr ''x''], s2)"
    by (simp add: prod_eq_iff s2_def)
  note T = distinct_dependents_distinct_leaves[OF r g, where state = "[JRef PlainObject 1]"
      and ?state2.0 = "[JRef PlainObject 4]" and i = 0 and ?rt2.0 = dev_runtime
      and ?args2.0 = "[JStr ''x'']", OF l1 l2 d o' n w1' c1' w2']
  from T have K: "weakMapKey ([JRef PlainObject 1] ! 0) \<noteq> weakMapKey ([JRef PlainObject 4] ! 0)"
    by blast
  from T have A: "(1 :: addr) \<noteq> 2"
    and B: "cached_result s1 (map weakMapKey [JRef PlainObject 4]) ''x''
       = cached_result start (map weakMapKey [JRef PlainObject 4]) ''x''"
    by blast+
  from T k e c2' have C: "selector_calls s2 = Suc (selector_calls s1)"
    by blast
  from r g d o K n w1 c1 w2 A B e c2 C show ?thesis
    unfolding s1_def s2_def by blast
qed

section \<open>The depth of the tree\<close>

text \<open>
  C9, amended. For a cached selector whose dependents function returns sequences of one
  length \<open>n\<close>, at least one, on every call: in every state it can reach, every path
  from the root has at most \<open>n\<close> keys, the map at its end is a \<open>Map\<close> when the path has
  \<open>n\<close> keys and a \<open>WeakMap\<close> when it has fewer; and after a call that returned a Result,
  the levels of its dependents are there, a \<open>WeakMap\<close> at every position but the last
  and a \<open>Map\<close> at the last.
\<close>

theorem constant_length_tree_depth:
  assumes "reachable c s" and "getDependents c = Fn gd"
    and "\<forall>state args. length (gd state args) = n" and "0 < n"
  shows "(\<forall>p a. lookup_path (heap s) (cache s) p = Some a
            \<longrightarrow> length p \<le> n \<and> (is_Map (heap s a) \<longleftrightarrow> length p = n))
       \<and> (\<forall>rt state args v s1 j. cachedSelector rt c state args s = (Inr v, s1) \<and> j \<le> n
            \<longrightarrow> (\<exists>a. lookup_path (heap s1) (cache s1) (map weakMapKey (take j (gd state args)))
                        = Some a
                     \<and> (is_Map (heap s1 a) \<longleftrightarrow> j = n)))"
proof -
  have 1: "\<forall>p a. lookup_path (heap s) (cache s) p = Some a
            \<longrightarrow> length p \<le> n \<and> (is_Map (heap s a) \<longleftrightarrow> length p = n)"
    using reachable_has_depth[OF assms] by (simp add: has_depth_def)
  have 2: "\<exists>a. lookup_path (heap s1) (cache s1) (map weakMapKey (take j (gd state args))) = Some a
             \<and> (is_Map (heap s1 a) \<longleftrightarrow> j = n)"
    if c: "cachedSelector rt c state args s = (Inr v, s1)" and j: "j \<le> n" for rt state args v s1 j
  proof -
    have "reachable c (snd (cachedSelector rt c state args s))"
      using assms(1) by (rule reachable.call)
    with c have r1: "reachable c s1" by simp
    from call_stores[OF reachable_inv[OF assms(1)] c assms(2)] obtain leaf where
      "lookup_path (heap s1) (cache s1) (map weakMapKey (gd state args)) = Some leaf" by blast
    then have "lookup_path (heap s1) (cache s1)
        (map weakMapKey (take j (gd state args)) @ map weakMapKey (drop j (gd state args))) = Some leaf"
      by (simp flip: map_append)
    from lookup_path_prefix[OF this] obtain a where
      a: "lookup_path (heap s1) (cache s1) (map weakMapKey (take j (gd state args))) = Some a"
      by blast
    have "length (map weakMapKey (take j (gd state args))) = j"
      using j assms(3) by simp
    with reachable_has_depth[OF r1 assms(2,3,4)] a have "is_Map (heap s1 a) \<longleftrightarrow> j = n"
      unfolding has_depth_def by metis
    with a show ?thesis by blast
  qed
  from 1 2 show ?thesis by blast
qed

theorem constant_length_tree_depth_witness:
  "reachable by_state (snd (cachedSelector dev_runtime by_state (JRef PlainObject 1) [JStr ''x''] start))
   \<and> getDependents by_state = Fn (\<lambda>state args. [state])
   \<and> lookup_path (heap (snd (cachedSelector dev_runtime by_state (JRef PlainObject 1) [JStr ''x''] start)))
        (cache (snd (cachedSelector dev_runtime by_state (JRef PlainObject 1) [JStr ''x''] start)))
        [Key (JRef PlainObject 1)] = Some 1
   \<and> length [Key (JRef PlainObject 1)] \<le> (1::nat)
   \<and> is_Map (heap (snd (cachedSelector dev_runtime by_state (JRef PlainObject 1) [JStr ''x''] start)) 1)
   \<and> lookup_path (heap (snd (cachedSelector dev_runtime by_state (JRef PlainObject 1) [JStr ''x''] start)))
        (cache (snd (cachedSelector dev_runtime by_state (JRef PlainObject 1) [JStr ''x''] start)))
        [] = Some 0
   \<and> \<not> is_Map (heap (snd (cachedSelector dev_runtime by_state (JRef PlainObject 1) [JStr ''x''] start)) 0)"
proof -
  define s1 where "s1 = snd (cachedSelector dev_runtime by_state (JRef PlainObject 1) [JStr ''x''] start)"
  have r0: "reachable by_state start"
    unfolding by_state_def by (rule reachable_initial)
  have r: "reachable by_state s1"
    unfolding s1_def using r0 by (rule reachable.call)
  have g: "getDependents by_state = Fn (\<lambda>state args. [state])"
    by (simp add: by_state_def)
  have len: "\<forall>state args. length ((\<lambda>(state::jsval) (args::jsval list). [state]) state args) = 1"
    by simp
  have p1: "lookup_path (heap s1) (cache s1) [Key (JRef PlainObject 1)] = Some 1"
    and p0: "lookup_path (heap s1) (cache s1) [] = Some 0"
    unfolding s1_def by (simp_all add: call_defs example_defs)
  note T = constant_length_tree_depth[OF r g len zero_less_one]
  from T have D: "\<And>p a. lookup_path (heap s1) (cache s1) p = Some a
      \<Longrightarrow> length p \<le> 1 \<and> (is_Map (heap s1 a) \<longleftrightarrow> length p = 1)"
    by blast
  from D[OF p1] have A: "length [Key (JRef PlainObject 1)] \<le> (1::nat)" and B: "is_Map (heap s1 1)"
    by simp_all
  from D[OF p0] have C: "\<not> is_Map (heap s1 0)"
    by simp
  from r g p1 A B p0 C show ?thesis
    unfolding s1_def by blast
qed

text \<open>
  C9 as stated fails when the length of the dependents varies: after a call with one
  dependent and a call with two, both of which return a Result, the level at the first
  position of the second call is a \<open>Map\<close>, and the tree has leaf maps at two depths.
\<close>

theorem varying_length_breaks_depth:
  "fst (cachedSelector dev_runtime by_list [JRef PlainObject 1] [] start) = Inr [JRef PlainObject 1]
   \<and> fst (cachedSelector dev_runtime by_list [JRef PlainObject 1, JRef PlainObject 2] []
        (snd (cachedSelector dev_runtime by_list [JRef PlainObject 1] [] start)))
       = Inr [JRef PlainObject 1, JRef PlainObject 2]
   \<and> map_option fst (tree_view
        (snd (cachedSelector dev_runtime by_list [JRef PlainObject 1, JRef PlainObject 2] []
          (snd (cachedSelector dev_runtime by_list [JRef PlainObject 1] [] start))))
        [Key (JRef PlainObject 1)]) = Some True
   \<and> map_option fst (tree_view
        (snd (cachedSelector dev_runtime by_list [JRef PlainObject 1, JRef PlainObject 2] []
          (snd (cachedSelector dev_runtime by_list [JRef PlainObject 1] [] start))))
        [Key (JRef PlainObject 1), Key (JRef PlainObject 2)]) = Some True"
  by (simp add: call_defs example_defs tree_view_def)

section \<open>A selector without dependents\<close>

text \<open>
  C10. When the dependents function returns the empty sequence, the walk ends at the
  root, which is a \<open>WeakMap\<close>. The call never returns a Result; and when it passes the
  check of its extra arguments and derives a key, it invokes the computation function
  and then fails in \<open>leafCache.set\<close>, leaving nothing stored.
\<close>

theorem no_dependents_never_returns:
  assumes "reachable c s" and "getDependents c = Fn gd" and "gd state args = []"
  shows "reduce (gd state args) (cache s) s = (Inr (cache s), s)
       \<and> \<not> is_Map (heap s (cache s))
       \<and> (\<forall>v. fst (cachedSelector rt c state args s) \<noteq> Inr v)
       \<and> (\<forall>sel k. selector c = Fn sel \<and> \<not> args_rejected rt c args \<and> cache_key rt c args = Inr k
            \<longrightarrow> cachedSelector rt c state args s
                  = (Inl InvalidWeakMapKey, s\<lparr>selector_calls := Suc (selector_calls s)\<rparr>))"
proof -
  note i = reachable_inv[OF assms(1)]
  note C = call_without_dependents[OF i assms(2,3), of rt]
  have 1: "reduce (gd state args) (cache s) s = (Inr (cache s), s)"
    using assms(3) by (simp add: reduce_def)
  have 2: "\<not> is_Map (heap s (cache s))" using i by (simp add: inv_def)
  have 3: "\<forall>v. fst (cachedSelector rt c state args s) \<noteq> Inr v"
    unfolding C by (simp split: sum.splits jsarg.splits)
  have 4: "\<forall>sel k. selector c = Fn sel \<and> \<not> args_rejected rt c args \<and> cache_key rt c args = Inr k
            \<longrightarrow> cachedSelector rt c state args s
                  = (Inl InvalidWeakMapKey, s\<lparr>selector_calls := Suc (selector_calls s)\<rparr>)"
    unfolding C by simp
  from 1 2 3 4 show ?thesis by blast
qed

theorem no_dependents_never_returns_witness:
  "reachable by_list start \<and> getDependents by_list = Fn (\<lambda>state args. state)
   \<and> reduce [] (cache start) start = (Inr (cache start), start)
   \<and> \<not> is_Map (heap start (cache start))
   \<and> selector by_list = Fn (\<lambda>dependents args. dependents @ args)
   \<and> \<not> args_rejected dev_runtime by_list [JStr ''a'']
   \<and> cache_key dev_runtime by_list [JStr ''a''] = Inr ''a''
   \<and> cachedSelector dev_runtime by_list [] [JStr ''a''] start
       = (Inl InvalidWeakMapKey, start\<lparr>selector_calls := Suc (selector_calls start)\<rparr>)"
proof -
  have r: "reachable by_list start"
    unfolding by_list_def by (rule reachable_initial)
  have g: "getDependents by_list = Fn (\<lambda>state args. state)"
    and f: "selector by_list = Fn (\<lambda>dependents args. dependents @ args)"
    by (simp_all add: by_list_def)
  have n: "\<not> args_rejected dev_runtime by_list [JStr ''a'']"
    and k: "cache_key dev_runtime by_list [JStr ''a''] = Inr ''a''"
    by (simp_all add: call_defs example_defs)
  note T = no_dependents_never_returns[OF r g, where state = "[]" and args = "[JStr ''a'']"
      and rt = dev_runtime, simplified]
  from T have A: "reduce [] (cache start) start = (Inr (cache start), start)"
    and B: "\<not> is_Map (heap start (cache start))" by blast+
  from T f n k have C: "cachedSelector dev_runtime by_list [] [JStr ''a''] start
       = (Inl InvalidWeakMapKey, start\<lparr>selector_calls := Suc (selector_calls start)\<rparr>)"
    by blast
  from r g A B f n k C show ?thesis by blast
qed

section \<open>Clearing the cache\<close>

text \<open>
  C5. \<open>clearCache\<close> is a state change that returns nothing and cannot fail. It makes the
  root a new, empty \<open>WeakMap\<close> at the next free address, so that the tree holds the root
  and nothing else, whatever it held; it invokes no computation. It is idempotent:
  applied twice it leaves the same tree as applied once, and any call made after gives
  the same result and computes as often. After \<open>clearCache\<close>, a call that returned a
  Result at some earlier time invokes the computation function again and returns what
  it computes.
\<close>

theorem clearCache_resets:
  "heap (clearCache s) (cache (clearCache s)) = WeakMap Map.empty
   \<and> cache (clearCache s) = next_addr s
   \<and> (\<forall>p. tree_view (clearCache s) p = (if p = [] then Some (False, Map.empty) else None))
   \<and> selector_calls (clearCache s) = selector_calls s
   \<and> tree_view (clearCache (clearCache s)) = tree_view (clearCache s)
   \<and> (reachable c s \<longrightarrow>
        (\<forall>rt state args.
           fst (cachedSelector rt c state args (clearCache (clearCache s)))
             = fst (cachedSelector rt c state args (clearCache s))
           \<and> selector_calls (snd (cachedSelector rt c state args (clearCache (clearCache s))))
             = selector_calls (snd (cachedSelector rt c state args (clearCache s)))))
   \<and> (\<forall>gd s0 rt state args v s1.
          reachable c s \<and> getDependents c = Fn gd \<and> reachable c s0
          \<and> cachedSelector rt c state args s0 = (Inr v, s1)
        \<longrightarrow> (\<exists>sel. selector c = Fn sel
               \<and> fst (cachedSelector rt c state args (clearCache s)) = Inr (sel (gd state args) args)
               \<and> selector_calls (snd (cachedSelector rt c state args (clearCache s)))
                   = Suc (selector_calls s)))"
proof -
  have 1: "heap (clearCache s) (cache (clearCache s)) = WeakMap Map.empty"
    and 2: "cache (clearCache s) = next_addr s"
    and 4: "selector_calls (clearCache s) = selector_calls s"
    by (simp_all add: clearCache_def)
  have 3: "\<forall>p. tree_view (clearCache s) p = (if p = [] then Some (False, Map.empty) else None)"
    by (simp add: tree_view_clearCache)
  have 5: "tree_view (clearCache (clearCache s)) = tree_view (clearCache s)"
    by (rule ext) (simp add: tree_view_clearCache)
  have 6: "reachable c s \<longrightarrow>
        (\<forall>rt state args.
           fst (cachedSelector rt c state args (clearCache (clearCache s)))
             = fst (cachedSelector rt c state args (clearCache s))
           \<and> selector_calls (snd (cachedSelector rt c state args (clearCache (clearCache s))))
             = selector_calls (snd (cachedSelector rt c state args (clearCache s))))"
  proof (intro impI allI)
    fix rt state args
    assume "reachable c s"
    then have "inv c s" by (rule reachable_inv)
    then show "fst (cachedSelector rt c state args (clearCache (clearCache s)))
             = fst (cachedSelector rt c state args (clearCache s))
           \<and> selector_calls (snd (cachedSelector rt c state args (clearCache (clearCache s))))
             = selector_calls (snd (cachedSelector rt c state args (clearCache s)))"
      by (rule call_after_clear_twice)
  qed
  have 7: "\<exists>sel. selector c = Fn sel
            \<and> fst (cachedSelector rt c state args (clearCache s)) = Inr (sel (gd state args) args)
            \<and> selector_calls (snd (cachedSelector rt c state args (clearCache s)))
                = Suc (selector_calls s)"
    if r: "reachable c s" and g: "getDependents c = Fn gd" and r0: "reachable c s0"
      and c: "cachedSelector rt c state args s0 = (Inr v, s1)"
    for gd s0 rt state args v s1
  proof -
    note i0 = reachable_inv[OF r0]
    from call_stores[OF i0 c g] obtain leaf k where
      k: "cache_key rt c args = Inr k" and v: "\<forall>x\<in>set (gd state args). valid_dependent x"
      and res: "results (heap s1 leaf) k = Some v" and n: "\<not> args_rejected rt c args"
      by blast
    have "inv c s1" using cachedSelector_inv[OF i0, of rt state args] c by simp
    with res obtain sel where sel: "selector c = Fn sel" unfolding inv_def by blast
    have ne: "gd state args \<noteq> []"
    proof
      assume "gd state args = []"
      from call_without_dependents[OF i0 g this, of rt] c show False
        by (simp split: if_splits sum.splits jsarg.splits)
    qed
    note ic = clearCache_inv[OF reachable_inv[OF r]]
    have ch: "children (heap (clearCache s) (cache (clearCache s))) = Map.empty"
      using 1 by simp
    from call_on_empty_root[OF ic ch g sel n v ne k] 4 sel show ?thesis by simp
  qed
  from 1 2 3 4 5 6 7 show ?thesis by blast
qed

theorem clearCache_resets_witness:
  "reachable by_state (snd (cachedSelector dev_runtime by_state (JRef PlainObject 1) [JStr ''a''] start))
   \<and> getDependents by_state = Fn (\<lambda>state args. [state])
   \<and> reachable by_state start
   \<and> fst (cachedSelector dev_runtime by_state (JRef PlainObject 1) [JStr ''a''] start)
       = Inr [JRef PlainObject 1, JStr ''a'']
   \<and> selector_calls (snd (cachedSelector dev_runtime by_state (JRef PlainObject 1) [JStr ''a''] start)) = 1
   \<and> fst (cachedSelector dev_runtime by_state (JRef PlainObject 1) [JStr ''a'']
        (clearCache (snd (cachedSelector dev_runtime by_state (JRef PlainObject 1) [JStr ''a''] start))))
       = Inr [JRef PlainObject 1, JStr ''a'']
   \<and> selector_calls (snd (cachedSelector dev_runtime by_state (JRef PlainObject 1) [JStr ''a'']
        (clearCache (snd (cachedSelector dev_runtime by_state (JRef PlainObject 1) [JStr ''a''] start)))))
       = 2"
proof -
  define s1 where "s1 = snd (cachedSelector dev_runtime by_state (JRef PlainObject 1) [JStr ''a''] start)"
  have r0: "reachable by_state start"
    unfolding by_state_def by (rule reachable_initial)
  have r1: "reachable by_state s1"
    unfolding s1_def using r0 by (rule reachable.call)
  have g: "getDependents by_state = Fn (\<lambda>state args. [state])"
    and f: "selector by_state = Fn (\<lambda>dependents args. dependents @ args)"
    by (simp_all add: by_state_def)
  have v: "fst (cachedSelector dev_runtime by_state (JRef PlainObject 1) [JStr ''a''] start)
      = Inr [JRef PlainObject 1, JStr ''a'']"
    and n: "selector_calls s1 = 1"
    unfolding s1_def by (simp_all add: call_defs example_defs)
  from v have c: "cachedSelector dev_runtime by_state (JRef PlainObject 1) [JStr ''a''] start
      = (Inr [JRef PlainObject 1, JStr ''a''], s1)"
    by (simp add: prod_eq_iff s1_def)
  from clearCache_resets[of s1 by_state] r1 g r0 c obtain sel where
    "selector by_state = Fn sel"
    "fst (cachedSelector dev_runtime by_state (JRef PlainObject 1) [JStr ''a''] (clearCache s1))
      = Inr (sel [JRef PlainObject 1] [JStr ''a''])"
    "selector_calls (snd (cachedSelector dev_runtime by_state (JRef PlainObject 1) [JStr ''a'']
        (clearCache s1))) = Suc (selector_calls s1)"
    by blast
  with f n have
    A: "fst (cachedSelector dev_runtime by_state (JRef PlainObject 1) [JStr ''a''] (clearCache s1))
      = Inr [JRef PlainObject 1, JStr ''a'']"
    and B: "selector_calls (snd (cachedSelector dev_runtime by_state (JRef PlainObject 1) [JStr ''a'']
        (clearCache s1))) = 2"
    by auto
  from r1 g r0 v n A B show ?thesis unfolding s1_def by blast
qed

end
